theory Spec2Isabelle
  imports Complex_Main "HOL-Library.Multiset"
begin

section \<open>Data model of \<^verbatim>\<open>task-2.js\<close>\<close>

text \<open>
  A camera is the source's object \<^verbatim>\<open>{dMin, dMax, lMin, lMax}\<close>. The source's numbers are
  taken to be integers (its own comments speak of integer coordinates and integer units).
\<close>

record camera =
  dMin :: int
  dMax :: int
  lMin :: int
  lMax :: int

text \<open>
  An event of the sweep, \<^verbatim>\<open>{dist, type, lMin, lMax}\<close>: type 0 is a boundary event, +1 adds
  coverage and -1 removes it. The fields \<^verbatim>\<open>type\<close>, \<^verbatim>\<open>lMin\<close> and \<^verbatim>\<open>lMax\<close> are \<open>etype\<close>,
  \<open>e_lMin\<close> and \<open>e_lMax\<close> here, apart from the fields of a camera.
\<close>

record event =
  dist :: int
  etype :: int
  e_lMin :: int
  e_lMax :: int

text \<open>
  A JavaScript number that may be missing: \<open>None\<close> stands for \<^verbatim>\<open>undefined\<close> and for
  \<^verbatim>\<open>NaN\<close>, which the operations the source uses do not tell apart (arithmetic on either
  gives \<^verbatim>\<open>NaN\<close>, every comparison with either is false).
\<close>

type_synonym jsnum = "int option"

text \<open>
  The operators \<^verbatim>\<open>+\<close>, \<^verbatim>\<open>-\<close> and \<^verbatim>\<open><\<close> of the source. The model computes with exact integers.
  The source computes with IEEE doubles: there the sum and the difference of two integers
  are the exact ones as long as the operands and the result have a magnitude of at most
  \<open>2 ^ 53\<close>, and are rounded beyond; comparisons, \<^verbatim>\<open>Math.max\<close> and \<^verbatim>\<open>Math.min\<close> are always exact.
  So \<open>js_add\<close> and \<open>js_sub\<close> are the source's operations on integers of magnitude at most
  \<open>2 ^ 53\<close> only. The source adds and subtracts in three places: the counts of the tree, which
  change by 1 at a time and whose magnitude is at most the number of the rectangles; the
  lengths of the tree, which are differences of two light coordinates and sums of such
  lengths; and the required length \<^verbatim>\<open>lightMax - lightMin\<close>. The predicate \<open>inExactRange\<close> below
  bounds the light bounds of the target so that all of them stay within \<open>2 ^ 53\<close>
  (lemma \<open>lengths_in_exact_range\<close>), and the theorems whose truth depends on the value of a
  length (the correctness of the check against the covered region, its monotonicity, and
  the invariant of the tree) assume it.
\<close>

definition js_add :: "jsnum \<Rightarrow> jsnum \<Rightarrow> jsnum" where
  "js_add a b = (case a of None \<Rightarrow> None | Some x \<Rightarrow> (case b of None \<Rightarrow> None | Some y \<Rightarrow> Some (x + y)))"

definition js_sub :: "jsnum \<Rightarrow> jsnum \<Rightarrow> jsnum" where
  "js_sub a b = (case a of None \<Rightarrow> None | Some x \<Rightarrow> (case b of None \<Rightarrow> None | Some y \<Rightarrow> Some (x - y)))"

definition js_lt :: "jsnum \<Rightarrow> jsnum \<Rightarrow> bool" where
  "js_lt a b = (case a of None \<Rightarrow> False | Some x \<Rightarrow> (case b of None \<Rightarrow> False | Some y \<Rightarrow> x < y))"

text \<open>Reading \<^verbatim>\<open>xs[i]\<close>: \<^verbatim>\<open>undefined\<close> outside the array.\<close>

definition js_nth :: "int list \<Rightarrow> int \<Rightarrow> jsnum" where
  "js_nth xs i = (if 0 \<le> i \<and> i < int (length xs) then Some (xs ! nat i) else None)"

section \<open>The segment tree\<close>

text \<open>
  \<^verbatim>\<open>class SegmentTree\<close>: the sorted coordinates, the number \<open>n\<close> of elementary intervals,
  and the two flat arrays \<^verbatim>\<open>coverCount\<close> and \<^verbatim>\<open>coveredLen\<close>, indexed by node id. An array
  is a function from indices to \<open>jsnum\<close>: an index never written reads \<^verbatim>\<open>undefined\<close>, and a
  write beyond the end extends the array, as in JavaScript.
\<close>

record SegmentTree =
  coords :: "int list"
  tree_n :: int
  coverCount :: "nat \<Rightarrow> jsnum"
  coveredLen :: "nat \<Rightarrow> jsnum"

text \<open>\<^verbatim>\<open>_build(idx, left, right)\<close>; \<^verbatim>\<open>idx << 1\<close> is \<open>2 * idx\<close>, \<^verbatim>\<open>(idx << 1) | 1\<close> is
  \<open>2 * idx + 1\<close>, and \<^verbatim>\<open>(left + right) >> 1\<close> is the floor of the half.\<close>

function build :: "nat \<Rightarrow> int \<Rightarrow> int \<Rightarrow> SegmentTree \<Rightarrow> SegmentTree" where
  "build idx left right t =
     (if left > right then t
      else if left = right then t\<lparr>coveredLen := (coveredLen t)(idx := Some 0)\<rparr>
      else
        let mid = (left + right) div 2;
            t1 = build (2 * idx) left mid t;
            t2 = build (2 * idx + 1) (mid + 1) right t1
        in t2\<lparr>coveredLen := (coveredLen t2)(idx := Some 0)\<rparr>)"
  by pat_completeness auto
termination
  by (relation "measure (\<lambda>(idx, left, right, t). nat (right - left))") auto

declare build.simps [simp del]

text \<open>
  The constructor. \<^verbatim>\<open>new Array(4 * n)\<close> raises a RangeError for a negative length, that is
  for an empty coordinate array: \<open>None\<close>.
\<close>

definition newSegmentTree :: "int list \<Rightarrow> SegmentTree option" where
  "newSegmentTree cs =
     (let n = int (length cs) - 1 in
      if n < 0 then None
      else Some (build 1 0 (n - 1)
        \<lparr>coords = cs, tree_n = n,
         coverCount = (\<lambda>i. if int i < 4 * n then Some 0 else None),
         coveredLen = (\<lambda>i. if int i < 4 * n then Some 0 else None)\<rparr>))"

text \<open>The tail of \<^verbatim>\<open>_updateRange\<close>: recompute \<^verbatim>\<open>coveredLen[idx]\<close>.\<close>

definition recompute :: "nat \<Rightarrow> int \<Rightarrow> int \<Rightarrow> SegmentTree \<Rightarrow> SegmentTree" where
  "recompute idx left right t =
     (if js_lt (Some 0) (coverCount t idx)
      then t\<lparr>coveredLen := (coveredLen t)
              (idx := js_sub (js_nth (coords t) (right + 1)) (js_nth (coords t) left))\<rparr>
      else if left = right then t\<lparr>coveredLen := (coveredLen t)(idx := Some 0)\<rparr>
      else t\<lparr>coveredLen := (coveredLen t)
              (idx := js_add (coveredLen t (2 * idx)) (coveredLen t (2 * idx + 1)))\<rparr>)"

text \<open>\<^verbatim>\<open>_updateRange(idx, left, right, ql, qr, delta)\<close>.\<close>

function updateRange ::
  "nat \<Rightarrow> int \<Rightarrow> int \<Rightarrow> int \<Rightarrow> int \<Rightarrow> int \<Rightarrow> SegmentTree \<Rightarrow> SegmentTree" where
  "updateRange idx left right ql qr delta t =
     (if ql > right \<or> qr < left then t
      else if ql \<le> left \<and> right \<le> qr
      then recompute idx left right
             (t\<lparr>coverCount := (coverCount t)(idx := js_add (coverCount t idx) (Some delta))\<rparr>)
      else
        let mid = (left + right) div 2;
            t1 = updateRange (2 * idx) left mid ql qr delta t;
            t2 = updateRange (2 * idx + 1) (mid + 1) right ql qr delta t1
        in recompute idx left right t2)"
  by pat_completeness auto
termination
  by (relation "measure (\<lambda>(idx, left, right, ql, qr, delta, t). nat (right - left))") auto

declare updateRange.simps [simp del]

text \<open>\<^verbatim>\<open>update(uLeft, uRight, delta)\<close> and \<^verbatim>\<open>getCoveredLength()\<close>.\<close>

definition update :: "int \<Rightarrow> int \<Rightarrow> int \<Rightarrow> SegmentTree \<Rightarrow> SegmentTree" where
  "update uLeft uRight delta t =
     (if uLeft > uRight then t
      else updateRange 1 0 (tree_n t - 1) uLeft (uRight - 1) delta t)"

definition getCoveredLength :: "SegmentTree \<Rightarrow> jsnum" where
  "getCoveredLength t = coveredLen t 1"

section \<open>The coverage check\<close>

text \<open>Step 1 of \<^verbatim>\<open>canCoverAll\<close>: the overlap test and the clamp of one camera.\<close>

definition overlapsTarget :: "int \<Rightarrow> int \<Rightarrow> int \<Rightarrow> int \<Rightarrow> camera \<Rightarrow> bool" where
  "overlapsTarget distanceMin distanceMax lightMin lightMax cam \<longleftrightarrow>
     dMax cam \<ge> distanceMin \<and> dMin cam \<le> distanceMax \<and>
     lMax cam \<ge> lightMin \<and> lMin cam \<le> lightMax"

definition clampCam :: "int \<Rightarrow> int \<Rightarrow> int \<Rightarrow> int \<Rightarrow> camera \<Rightarrow> camera" where
  "clampCam distanceMin distanceMax lightMin lightMax cam =
     \<lparr>dMin = max distanceMin (dMin cam), dMax = min distanceMax (dMax cam),
      lMin = max lightMin (lMin cam), lMax = min lightMax (lMax cam)\<rparr>"

text \<open>The \<^verbatim>\<open>forEach\<close> that pushes the clamped cameras onto \<^verbatim>\<open>validCams\<close>.\<close>

definition validCams :: "int \<Rightarrow> int \<Rightarrow> int \<Rightarrow> int \<Rightarrow> camera list \<Rightarrow> camera list" where
  "validCams distanceMin distanceMax lightMin lightMax cameras =
     foldl (\<lambda>acc cam.
        if overlapsTarget distanceMin distanceMax lightMin lightMax cam
        then acc @ [clampCam distanceMin distanceMax lightMin lightMax cam]
        else acc) [] cameras"

text \<open>Step 2: the two boundary events, then an add and a remove event for each camera.\<close>

definition boundaryEvent :: "int \<Rightarrow> event" where
  "boundaryEvent d = \<lparr>dist = d, etype = 0, e_lMin = 0, e_lMax = 0\<rparr>"

definition addEvent :: "camera \<Rightarrow> event" where
  "addEvent cam = \<lparr>dist = dMin cam, etype = 1, e_lMin = lMin cam, e_lMax = lMax cam\<rparr>"

definition removeEvent :: "camera \<Rightarrow> event" where
  "removeEvent cam = \<lparr>dist = dMax cam, etype = -1, e_lMin = lMin cam, e_lMax = lMax cam\<rparr>"

definition buildEvents :: "int \<Rightarrow> int \<Rightarrow> camera list \<Rightarrow> event list" where
  "buildEvents distanceMin distanceMax vcs =
     foldl (\<lambda>acc cam. acc @ [addEvent cam, removeEvent cam])
       [boundaryEvent distanceMin, boundaryEvent distanceMax] vcs"

text \<open>
  Step 3: the \<^verbatim>\<open>Set\<close> of light coordinates, in insertion order, and its sorted array.
\<close>

definition set_add :: "int list \<Rightarrow> int \<Rightarrow> int list" where
  "set_add s v = (if v \<in> set s then s else s @ [v])"

definition lightCoords :: "int \<Rightarrow> int \<Rightarrow> camera list \<Rightarrow> int list" where
  "lightCoords lightMin lightMax vcs =
     foldl (\<lambda>s cam. set_add (set_add s (lMin cam)) (lMax cam))
       (set_add (set_add [] lightMin) lightMax) vcs"

definition uniqueLightValues :: "int \<Rightarrow> int \<Rightarrow> camera list \<Rightarrow> int list" where
  "uniqueLightValues lightMin lightMax vcs = sort (lightCoords lightMin lightMax vcs)"

text \<open>The \<^verbatim>\<open>Map\<close> from a light value to its index.\<close>

definition lightIndex :: "int list \<Rightarrow> (int \<rightharpoonup> nat)" where
  "lightIndex vals = foldl (\<lambda>m (idx, val). m(val \<mapsto> idx)) Map.empty (enumerate 0 vals)"

text \<open>
  Step 5: the loop over the sorted events. \<open>prevDist\<close> and the tree are the loop's state.
  The result \<open>None\<close> is the abnormal outcome: a light value missing from the index
  (\<^verbatim>\<open>lightIndex.get\<close> gives \<^verbatim>\<open>undefined\<close>).
\<close>

fun sweep ::
  "int \<Rightarrow> int \<Rightarrow> int \<Rightarrow> (int \<rightharpoonup> nat) \<Rightarrow> event list \<Rightarrow> int \<Rightarrow> SegmentTree \<Rightarrow> bool option" where
  "sweep distanceMin distanceMax totalLen li [] prevDist segTree = Some True"
| "sweep distanceMin distanceMax totalLen li (e # es) prevDist segTree =
     (if dist e > prevDist \<and>
         min (dist e) distanceMax > max prevDist distanceMin \<and>
         js_lt (getCoveredLength segTree) (Some totalLen)
      then Some False
      else if etype e \<noteq> 0
      then (case li (e_lMin e) of
              None \<Rightarrow> None
            | Some a \<Rightarrow>
               (case li (e_lMax e) of
                  None \<Rightarrow> None
                | Some b \<Rightarrow>
                    sweep distanceMin distanceMax totalLen li es (dist e)
                      (update (int a) (int b) (if etype e > 0 then 1 else -1) segTree)))
      else sweep distanceMin distanceMax totalLen li es (dist e) segTree)"

text \<open>
  The tree the loop holds after it has processed the events \<open>es\<close> from the tree \<open>segTree\<close>
  (the updates of the loop body alone, without its coverage test).
\<close>

fun applyEvents :: "(int \<rightharpoonup> nat) \<Rightarrow> event list \<Rightarrow> SegmentTree \<Rightarrow> SegmentTree option" where
  "applyEvents li [] segTree = Some segTree"
| "applyEvents li (e # es) segTree =
     (if etype e \<noteq> 0
      then (case li (e_lMin e) of
              None \<Rightarrow> None
            | Some a \<Rightarrow>
               (case li (e_lMax e) of
                  None \<Rightarrow> None
                | Some b \<Rightarrow>
                    applyEvents li es
                      (update (int a) (int b) (if etype e > 0 then 1 else -1) segTree)))
      else applyEvents li es segTree)"

text \<open>
  Steps 2 to 5 on the clamped cameras. \<^verbatim>\<open>events.sort((a, b) => a.dist - b.dist)\<close> is a
  stable sort on the distance, as \<open>sort_key dist\<close> is (the comparator uses the sign of the
  difference only, which rounding keeps); \<^verbatim>\<open>events[0]\<close> of an empty array would be
  \<^verbatim>\<open>undefined\<close> and its \<^verbatim>\<open>dist\<close> a TypeError: \<open>None\<close>. The required length
  \<^verbatim>\<open>totalLen = lightMax - lightMin\<close> is the exact difference here, as it is in the source for
  light bounds in the exact range.
\<close>

definition coverSweep :: "int \<Rightarrow> int \<Rightarrow> int \<Rightarrow> int \<Rightarrow> camera list \<Rightarrow> bool option" where
  "coverSweep distanceMin distanceMax lightMin lightMax vcs =
     (let events = sort_key dist (buildEvents distanceMin distanceMax vcs);
          vals = uniqueLightValues lightMin lightMax vcs
      in case newSegmentTree vals of
           None \<Rightarrow> None
         | Some segTree \<Rightarrow>
            (case events of
               [] \<Rightarrow> None
             | e # _ \<Rightarrow>
                sweep distanceMin distanceMax (lightMax - lightMin) (lightIndex vals)
                  events (dist e) segTree))"

text \<open>\<^verbatim>\<open>canCoverAll(distanceMin, distanceMax, lightMin, lightMax, cameras)\<close>.\<close>

definition canCoverAll :: "int \<Rightarrow> int \<Rightarrow> int \<Rightarrow> int \<Rightarrow> camera list \<Rightarrow> bool option" where
  "canCoverAll distanceMin distanceMax lightMin lightMax cameras =
     (if distanceMin = distanceMax \<and> lightMin = lightMax then Some True
      else if cameras = [] then Some False
      else
        let vcs = validCams distanceMin distanceMax lightMin lightMax cameras in
        if vcs = [] then Some False
        else coverSweep distanceMin distanceMax lightMin lightMax vcs)"

section \<open>Notions used to state the properties\<close>

text \<open>
  The nodes of the tree over the intervals \<open>0 .. n - 1\<close>, as \<^verbatim>\<open>_build\<close> and \<^verbatim>\<open>_updateRange\<close>
  visit them: the root is node 1 with the span \<open>0 .. n - 1\<close>, and a node \<open>idx\<close> with span
  \<open>left .. right\<close>, \<open>left < right\<close>, has the children \<open>2 * idx\<close> and \<open>2 * idx + 1\<close>.
\<close>

inductive treeNode :: "int \<Rightarrow> nat \<Rightarrow> int \<Rightarrow> int \<Rightarrow> bool" for n :: int where
  root: "0 < n \<Longrightarrow> treeNode n 1 0 (n - 1)"
| left: "treeNode n idx l r \<Longrightarrow> l < r \<Longrightarrow> treeNode n (2 * idx) l ((l + r) div 2)"
| right: "treeNode n idx l r \<Longrightarrow> l < r \<Longrightarrow> treeNode n (2 * idx + 1) ((l + r) div 2 + 1) r"

text \<open>
  \<open>inDecomp idx left right ql qr X\<close>: node \<open>X\<close> is one of the nodes whose \<^verbatim>\<open>coverCount\<close> the call
  \<^verbatim>\<open>_updateRange(idx, left, right, ql, qr, delta)\<close> changes (the nodes of the subtree that lie
  fully in the query range while their parent does not).
\<close>

function inDecomp :: "nat \<Rightarrow> int \<Rightarrow> int \<Rightarrow> int \<Rightarrow> int \<Rightarrow> nat \<Rightarrow> bool" where
  "inDecomp idx left right ql qr X =
     (if ql > right \<or> qr < left then False
      else if ql \<le> left \<and> right \<le> qr then X = idx
      else inDecomp (2 * idx) left ((left + right) div 2) ql qr X \<or>
           inDecomp (2 * idx + 1) ((left + right) div 2 + 1) right ql qr X)"
  by pat_completeness auto
termination
  by (relation "measure (\<lambda>(idx, left, right, ql, qr, X). nat (right - left))") auto

declare inDecomp.simps [simp del]

text \<open>\<open>onPath idx left right i X\<close>: node \<open>X\<close> lies on the path from node \<open>idx\<close> (with span
  \<open>left .. right\<close>) down to the leaf of the elementary interval \<open>i\<close>.\<close>

function onPath :: "nat \<Rightarrow> int \<Rightarrow> int \<Rightarrow> int \<Rightarrow> nat \<Rightarrow> bool" where
  "onPath idx left right i X =
     (X = idx \<or>
      (if left < right
       then (if i \<le> (left + right) div 2
             then onPath (2 * idx) left ((left + right) div 2) i X
             else onPath (2 * idx + 1) ((left + right) div 2 + 1) right i X)
       else False))"
  by pat_completeness auto
termination
  by (relation "measure (\<lambda>(idx, left, right, i, X). nat (right - left))") auto

declare onPath.simps [simp del]

text \<open>The recompute rule at one node, and at every node of a subtree.\<close>

definition ruleAt :: "SegmentTree \<Rightarrow> nat \<Rightarrow> int \<Rightarrow> int \<Rightarrow> bool" where
  "ruleAt t idx left right \<longleftrightarrow>
     coveredLen t idx =
       (if js_lt (Some 0) (coverCount t idx)
        then js_sub (js_nth (coords t) (right + 1)) (js_nth (coords t) left)
        else if left = right then Some 0
        else js_add (coveredLen t (2 * idx)) (coveredLen t (2 * idx + 1)))"

function wfT :: "SegmentTree \<Rightarrow> nat \<Rightarrow> int \<Rightarrow> int \<Rightarrow> bool" where
  "wfT t idx left right =
     ((\<exists>c. coverCount t idx = Some c) \<and> ruleAt t idx left right \<and>
      (if left < right
       then wfT t (2 * idx) left ((left + right) div 2) \<and>
            wfT t (2 * idx + 1) ((left + right) div 2 + 1) right
       else True))"
  by pat_completeness auto
termination
  by (relation "measure (\<lambda>(t, idx, left, right). nat (right - left))") auto

declare wfT.simps [simp del]

text \<open>The width of the elementary interval \<open>i\<close>.\<close>

definition width :: "int list \<Rightarrow> int \<Rightarrow> int" where
  "width cs i = cs ! nat (i + 1) - cs ! nat i"

text \<open>The index positions that belong to the subtree of node \<open>idx\<close>.\<close>

definition sub :: "nat \<Rightarrow> nat \<Rightarrow> bool" where
  "sub idx X \<longleftrightarrow> (\<exists>k. idx * 2 ^ k \<le> X \<and> X < (idx + 1) * 2 ^ k)"

text \<open>
  \<open>posPath t idx left right i\<close>: some node on the path from node \<open>idx\<close> down to the leaf of
  the elementary interval \<open>i\<close> has a positive \<^verbatim>\<open>coverCount\<close>.
\<close>

definition posPath :: "SegmentTree \<Rightarrow> nat \<Rightarrow> int \<Rightarrow> int \<Rightarrow> int \<Rightarrow> bool" where
  "posPath t idx left right i \<longleftrightarrow>
     (\<exists>X. onPath idx left right i X \<and> js_lt (Some 0) (coverCount t X))"

text \<open>The bound that keeps a node's index inside the arrays of length \<open>4 * n\<close>.\<close>

definition nodeBound :: "int \<Rightarrow> nat \<Rightarrow> int \<Rightarrow> int \<Rightarrow> bool" where
  "nodeBound n idx l r \<longleftrightarrow>
     (\<exists>P::int. 1 \<le> P \<and> int idx < 2 * P \<and> (r - l + 1) * P \<le> n + P - 1 \<and> 2 * P \<le> 4 * n)"

text \<open>
  \<open>touchesRange li n lo hi X\<close>: the update for the light interval \<open>[lo, hi]\<close> changes the
  \<^verbatim>\<open>coverCount\<close> of node \<open>X\<close> in the tree over \<open>n\<close> intervals; \<open>touches\<close> is the same for the
  light interval of an event. \<open>evDelta\<close> is the amount the event adds there, and \<open>cntFun\<close> the
  sum of these amounts over a list of events.
\<close>

definition touchesRange :: "(int \<rightharpoonup> nat) \<Rightarrow> int \<Rightarrow> int \<Rightarrow> int \<Rightarrow> nat \<Rightarrow> bool" where
  "touchesRange li n lo hi X \<longleftrightarrow>
     (case li lo of
        None \<Rightarrow> False
      | Some a \<Rightarrow>
         (case li hi of
            None \<Rightarrow> False
          | Some b \<Rightarrow> int a \<le> int b \<and> inDecomp 1 0 (n - 1) (int a) (int b - 1) X))"

definition touches :: "(int \<rightharpoonup> nat) \<Rightarrow> int \<Rightarrow> event \<Rightarrow> nat \<Rightarrow> bool" where
  "touches li n e X \<longleftrightarrow> touchesRange li n (e_lMin e) (e_lMax e) X"

definition evDelta :: "(int \<rightharpoonup> nat) \<Rightarrow> int \<Rightarrow> event \<Rightarrow> nat \<Rightarrow> int" where
  "evDelta li n e X =
     (if etype e \<noteq> 0 \<and> touches li n e X then (if etype e > 0 then 1 else -1) else 0)"

definition cntFun :: "(int \<rightharpoonup> nat) \<Rightarrow> int \<Rightarrow> event list \<Rightarrow> nat \<Rightarrow> int" where
  "cntFun li n es X = (\<Sum>e\<leftarrow>es. evDelta li n e X)"

text \<open>
  The length the root caches when the counts are \<open>cnt\<close>: the widths of the elementary
  intervals that have a positive count somewhere on their path from the root.
\<close>

definition coveredBy :: "int list \<Rightarrow> (nat \<Rightarrow> int) \<Rightarrow> int" where
  "coveredBy cs cnt =
     (\<Sum>i\<in>{0..int (length cs) - 2}.
        if (\<exists>X. onPath 1 0 (int (length cs) - 2) i X \<and> 0 < cnt X) then width cs i else 0)"

text \<open>The tree as the constructor leaves it.\<close>

definition initTree :: "int list \<Rightarrow> SegmentTree" where
  "initTree cs =
     \<lparr>coords = cs, tree_n = int (length cs) - 1,
      coverCount = (\<lambda>i. if int i < 4 * (int (length cs) - 1) then Some 0 else None),
      coveredLen = (\<lambda>i. if int i < 4 * (int (length cs) - 1) then Some 0 else None)\<rparr>"

text \<open>An entry of an array of length \<open>4 * n\<close>: the value inside, \<^verbatim>\<open>undefined\<close> beyond.\<close>

definition cell :: "int list \<Rightarrow> nat \<Rightarrow> int \<Rightarrow> jsnum" where
  "cell cs X v = (if int X < 4 * (int (length cs) - 1) then Some v else None)"

text \<open>The invariant of the tree during the sweep.\<close>

definition treeInv :: "int list \<Rightarrow> SegmentTree \<Rightarrow> bool" where
  "treeInv cs t \<longleftrightarrow>
     coords t = cs \<and> tree_n t = int (length cs) - 1 \<and> wfT t 1 0 (int (length cs) - 2)"

text \<open>The value of \<^verbatim>\<open>prevDist\<close> when the loop reaches the event at position \<open>k\<close>.\<close>

definition prevDistAt :: "int \<Rightarrow> event list \<Rightarrow> nat \<Rightarrow> int" where
  "prevDistAt prev es k = (if k = 0 then prev else dist (es ! (k - 1)))"

text \<open>
  The sweep's verdict, read off the events as a multiset: between any two consecutive
  distinct event distances whose gap meets the target, the cameras whose events have been
  processed so far leave no light uncovered.
\<close>

definition gapsCovered :: "int \<Rightarrow> int \<Rightarrow> int \<Rightarrow> int \<Rightarrow> camera list \<Rightarrow> bool" where
  "gapsCovered d0 d1 l0 l1 vcs \<longleftrightarrow>
     (let E = buildEvents d0 d1 vcs;
          ds = map dist (sort_key dist E);
          cs = uniqueLightValues l0 l1 vcs
      in \<forall>k. 0 < k \<and> k < length ds \<and> ds ! (k - 1) < ds ! k \<and>
              max (ds ! (k - 1)) d0 < min (ds ! k) d1 \<longrightarrow>
           \<not> coveredBy cs (cntFun (lightIndex cs) (int (length cs) - 1)
                 (filter (\<lambda>e. dist e \<le> ds ! (k - 1)) E)) < l1 - l0)"

section \<open>Coverage as a set of points\<close>

text \<open>A rectangle is well formed when its bounds are in order.\<close>

definition wfCam :: "camera \<Rightarrow> bool" where
  "wfCam c \<longleftrightarrow> dMin c \<le> dMax c \<and> lMin c \<le> lMax c"

text \<open>
  The union of the rectangles, each the closed region \<open>[dMin, dMax] \<times> [lMin, lMax]\<close> of the
  real plane, contains every point of the closed target rectangle.
\<close>

definition covers :: "int \<Rightarrow> int \<Rightarrow> int \<Rightarrow> int \<Rightarrow> camera list \<Rightarrow> bool" where
  "covers d0 d1 l0 l1 cams \<longleftrightarrow>
     (\<forall>(x::real) (y::real).
        of_int d0 \<le> x \<and> x \<le> of_int d1 \<and> of_int l0 \<le> y \<and> y \<le> of_int l1 \<longrightarrow>
        (\<exists>c\<in>set cams. of_int (dMin c) \<le> x \<and> x \<le> of_int (dMax c) \<and>
                        of_int (lMin c) \<le> y \<and> y \<le> of_int (lMax c)))"

text \<open>
  The range of the light bounds of the target in which the arithmetic of the source is
  exact: every light coordinate of the compressed axis lies between \<^verbatim>\<open>lightMin\<close> and
  \<^verbatim>\<open>lightMax\<close>, so with both of magnitude at most \<open>2 ^ 52\<close> every difference of two
  coordinates, and every sum of lengths within the target, has magnitude at most \<open>2 ^ 53\<close>.
\<close>

definition inExactRange :: "int \<Rightarrow> bool" where
  "inExactRange v \<longleftrightarrow> - (2 ^ 52) \<le> v \<and> v \<le> 2 ^ 52"

text \<open>A clamped camera: well formed and inside the target.\<close>

definition clamped :: "int \<Rightarrow> int \<Rightarrow> int \<Rightarrow> int \<Rightarrow> camera \<Rightarrow> bool" where
  "clamped d0 d1 l0 l1 v \<longleftrightarrow>
     d0 \<le> dMin v \<and> dMin v \<le> dMax v \<and> dMax v \<le> d1 \<and>
     l0 \<le> lMin v \<and> lMin v \<le> lMax v \<and> lMax v \<le> l1"

text \<open>
  At the distance \<open>p\<close>, the cameras that have started and not ended cover every elementary
  light interval.
\<close>

definition lightCovered :: "int list \<Rightarrow> camera list \<Rightarrow> int \<Rightarrow> bool" where
  "lightCovered cs vcs p \<longleftrightarrow>
     (\<forall>i\<in>{0..int (length cs) - 2}.
        \<exists>c\<in>set vcs. dMin c \<le> p \<and> p < dMax c \<and>
                     lMin c \<le> cs ! nat i \<and> cs ! nat (i + 1) \<le> lMax c)"

section \<open>The open envelopes\<close>

text \<open>
  The multiset of the light intervals of the envelopes that are open after the events
  \<open>ps\<close>: those of the add events processed, less those of the remove events processed.
\<close>

definition addedEnvelopes :: "event list \<Rightarrow> (int \<times> int) multiset" where
  "addedEnvelopes ps = mset (map (\<lambda>e. (e_lMin e, e_lMax e)) (filter (\<lambda>e. etype e > 0) ps))"

definition removedEnvelopes :: "event list \<Rightarrow> (int \<times> int) multiset" where
  "removedEnvelopes ps = mset (map (\<lambda>e. (e_lMin e, e_lMax e)) (filter (\<lambda>e. etype e < 0) ps))"

definition openEnvelopes :: "event list \<Rightarrow> (int \<times> int) multiset" where
  "openEnvelopes ps = addedEnvelopes ps - removedEnvelopes ps"

text \<open>
  The exact light length that the envelopes \<open>M\<close> cover within the elementary intervals
  \<open>l .. r\<close>: the widths of those intervals that lie inside some envelope.
\<close>

definition exactCovered :: "int list \<Rightarrow> (int \<times> int) multiset \<Rightarrow> int \<Rightarrow> int \<Rightarrow> int" where
  "exactCovered cs M l r =
     (\<Sum>i\<in>{l..r}.
        if (\<exists>p\<in>#M. fst p \<le> cs ! nat i \<and> cs ! nat (i + 1) \<le> snd p) then width cs i else 0)"

text \<open>
  The tree that the loop of \<open>coverSweep\<close> holds once it has processed the first \<open>k\<close> events,
  and the envelopes open at that point.
\<close>

definition sweepState ::
  "int \<Rightarrow> int \<Rightarrow> int \<Rightarrow> int \<Rightarrow> camera list \<Rightarrow> nat \<Rightarrow> SegmentTree option" where
  "sweepState d0 d1 l0 l1 vcs k =
     (let events = sort_key dist (buildEvents d0 d1 vcs);
          vals = uniqueLightValues l0 l1 vcs
      in case newSegmentTree vals of
           None \<Rightarrow> None
         | Some segTree \<Rightarrow> applyEvents (lightIndex vals) (take k events) segTree)"

definition sweepOpen :: "int \<Rightarrow> int \<Rightarrow> camera list \<Rightarrow> nat \<Rightarrow> (int \<times> int) multiset" where
  "sweepOpen d0 d1 vcs k = openEnvelopes (take k (sort_key dist (buildEvents d0 d1 vcs)))"

section \<open>Basic facts about the pipeline\<close>

lemma validCams_eq:
  "validCams d0 d1 l0 l1 cams =
     map (clampCam d0 d1 l0 l1) (filter (overlapsTarget d0 d1 l0 l1) cams)"
proof -
  have "foldl (\<lambda>acc cam. if overlapsTarget d0 d1 l0 l1 cam
                then acc @ [clampCam d0 d1 l0 l1 cam] else acc) acc cams =
        acc @ map (clampCam d0 d1 l0 l1) (filter (overlapsTarget d0 d1 l0 l1) cams)" for acc
    by (induction cams arbitrary: acc) simp_all
  from this [of "[]"] show ?thesis by (simp add: validCams_def)
qed

lemma validCams_filter:
  "validCams d0 d1 l0 l1 (filter (overlapsTarget d0 d1 l0 l1) cams) = validCams d0 d1 l0 l1 cams"
  by (simp add: validCams_eq)

lemma validCams_Nil_iff:
  "validCams d0 d1 l0 l1 cams = [] \<longleftrightarrow> (\<forall>c\<in>set cams. \<not> overlapsTarget d0 d1 l0 l1 c)"
  by (simp add: validCams_eq filter_empty_conv)

lemma buildEvents_eq:
  "buildEvents d0 d1 vcs =
     [boundaryEvent d0, boundaryEvent d1] @ concat (map (\<lambda>c. [addEvent c, removeEvent c]) vcs)"
proof -
  have "foldl (\<lambda>acc cam. acc @ [addEvent cam, removeEvent cam]) acc vcs =
        acc @ concat (map (\<lambda>c. [addEvent c, removeEvent c]) vcs)" for acc
    by (induction vcs arbitrary: acc) simp_all
  then show ?thesis by (simp add: buildEvents_def)
qed

lemma set_set_add: "set (set_add s v) = insert v (set s)"
  by (auto simp: set_add_def)

lemma distinct_set_add: "distinct s \<Longrightarrow> distinct (set_add s v)"
  by (simp add: set_add_def)

lemma lightCoords_foldl_set:
  "set (foldl (\<lambda>s cam. set_add (set_add s (lMin cam)) (lMax cam)) s vcs) =
     set s \<union> lMin ` set vcs \<union> lMax ` set vcs"
  by (induction vcs arbitrary: s) (auto simp: set_set_add)

lemma lightCoords_foldl_distinct:
  "distinct s \<Longrightarrow> distinct (foldl (\<lambda>s cam. set_add (set_add s (lMin cam)) (lMax cam)) s vcs)"
  by (induction vcs arbitrary: s) (simp_all add: distinct_set_add)

lemma set_uniqueLightValues:
  "set (uniqueLightValues l0 l1 vcs) = {l0, l1} \<union> lMin ` set vcs \<union> lMax ` set vcs"
  by (auto simp: uniqueLightValues_def lightCoords_def lightCoords_foldl_set set_set_add)

lemma distinct_uniqueLightValues: "distinct (uniqueLightValues l0 l1 vcs)"
  by (simp add: uniqueLightValues_def lightCoords_def lightCoords_foldl_distinct distinct_set_add)

lemma sorted_uniqueLightValues: "sorted (uniqueLightValues l0 l1 vcs)"
  by (simp add: uniqueLightValues_def)

lemma lightIndex_foldl_notin:
  assumes f: "\<And>m i v. f m (i, v) = m(v \<mapsto> i)"
  shows "v \<notin> set vals \<Longrightarrow> foldl f m (enumerate k vals) v = m v"
  by (induction vals arbitrary: m k) (auto simp: f)

lemma lightIndex_foldl_nth:
  assumes f: "\<And>m i v. f m (i, v) = m(v \<mapsto> i)"
  shows "distinct vals \<Longrightarrow> i < length vals \<Longrightarrow>
         foldl f m (enumerate k vals) (vals ! i) = Some (k + i)"
proof (induction vals arbitrary: m k i)
  case Nil
  then show ?case by simp
next
  case (Cons x xs)
  have step: "foldl f m (enumerate k (x # xs)) = foldl f (m(x \<mapsto> k)) (enumerate (Suc k) xs)"
    by (simp add: f)
  show ?case
  proof (cases i)
    case 0
    from Cons.prems have "x \<notin> set xs" by simp
    from lightIndex_foldl_notin [of f, OF f this, of "m(x \<mapsto> k)" "Suc k"]
    have "foldl f (m(x \<mapsto> k)) (enumerate (Suc k) xs) x = Some k" by simp
    moreover have "(x # xs) ! i = x" "k + i = k" using 0 by simp_all
    ultimately show ?thesis unfolding step by (simp only:)
  next
    case (Suc j)
    have "foldl f (m(x \<mapsto> k)) (enumerate (Suc k) xs) (xs ! j) = Some (Suc k + j)"
      by (rule Cons.IH) (use Cons.prems Suc in auto)
    moreover have "(x # xs) ! i = xs ! j" "k + i = Suc k + j" using Suc by simp_all
    ultimately show ?thesis unfolding step by (simp only:)
  qed
qed

lemma lightIndex_nth:
  "distinct vals \<Longrightarrow> i < length vals \<Longrightarrow> lightIndex vals (vals ! i) = Some i"
  using lightIndex_foldl_nth [of "\<lambda>m (idx, val). m(val \<mapsto> idx)" vals i Map.empty 0]
  by (simp add: lightIndex_def)

lemma lightIndex_in:
  assumes "distinct vals" "v \<in> set vals"
  shows "\<exists>i. i < length vals \<and> vals ! i = v \<and> lightIndex vals v = Some i"
proof -
  from assms(2) obtain i where "i < length vals" "vals ! i = v"
    by (auto simp: in_set_conv_nth)
  with lightIndex_nth [OF assms(1), of i] show ?thesis by auto
qed

lemma sweep_total:
  "\<forall>e\<in>set es. etype e \<noteq> 0 \<longrightarrow> (\<exists>a. li (e_lMin e) = Some a) \<and> (\<exists>b. li (e_lMax e) = Some b) \<Longrightarrow>
   \<exists>b. sweep d0 d1 tot li es prev t = Some b"
  by (induction es arbitrary: prev t) auto

lemma events_light_indexed:
  assumes "e \<in> set (sort_key dist (buildEvents d0 d1 vcs))" "etype e \<noteq> 0"
  shows "e_lMin e \<in> set (uniqueLightValues l0 l1 vcs) \<and> e_lMax e \<in> set (uniqueLightValues l0 l1 vcs)"
proof -
  from assms(1) have "e \<in> set (buildEvents d0 d1 vcs)" by simp
  with assms(2) show ?thesis
    by (auto simp: buildEvents_eq set_uniqueLightValues boundaryEvent_def addEvent_def
        removeEvent_def)
qed

lemma events_lookup:
  assumes "e \<in> set (sort_key dist (buildEvents d0 d1 vcs))" "etype e \<noteq> 0"
  shows "(\<exists>a. lightIndex (uniqueLightValues l0 l1 vcs) (e_lMin e) = Some a) \<and>
         (\<exists>b. lightIndex (uniqueLightValues l0 l1 vcs) (e_lMax e) = Some b)"
  using events_light_indexed [OF assms, of l0 l1]
    lightIndex_in [OF distinct_uniqueLightValues, of _ l0 l1 vcs] by blast

lemma uniqueLightValues_nonempty: "uniqueLightValues l0 l1 vcs \<noteq> []"
proof
  assume "uniqueLightValues l0 l1 vcs = []"
  then have "set (uniqueLightValues l0 l1 vcs) = {}" by simp
  then show False by (simp add: set_uniqueLightValues)
qed

lemma events_nonempty: "sort_key dist (buildEvents d0 d1 vcs) \<noteq> []"
proof
  assume "sort_key dist (buildEvents d0 d1 vcs) = []"
  then have "set (sort_key dist (buildEvents d0 d1 vcs)) = {}" by simp
  then show False by (simp add: buildEvents_eq)
qed

lemma coverSweep_total: "\<exists>b. coverSweep d0 d1 l0 l1 vcs = Some b"
proof -
  obtain e es where ev: "sort_key dist (buildEvents d0 d1 vcs) = e # es"
    using events_nonempty [of d0 d1 vcs] by (cases "sort_key dist (buildEvents d0 d1 vcs)") auto
  obtain t where t: "newSegmentTree (uniqueLightValues l0 l1 vcs) = Some t"
    using uniqueLightValues_nonempty [of l0 l1 vcs]
    by (cases "uniqueLightValues l0 l1 vcs") (auto simp: newSegmentTree_def Let_def)
  have "\<exists>b. sweep d0 d1 (l1 - l0) (lightIndex (uniqueLightValues l0 l1 vcs))
          (sort_key dist (buildEvents d0 d1 vcs)) (dist e) t = Some b"
    by (rule sweep_total) (use events_lookup in blast)
  then show ?thesis by (simp add: coverSweep_def Let_def t ev)
qed

section \<open>Degenerate targets and empty input\<close>

text \<open>
  C3. A target degenerate on both axes is covered whatever the rectangles are: for every
  rectangle list, the empty one included, and all \<open>x\<close> and \<open>y\<close>, the check on the target
  \<open>(x, x, y, y)\<close> returns true, by the first test of the function, before any filtering.
\<close>

theorem degenerate_target_true: "canCoverAll x x y y cameras = Some True"
  by (simp add: canCoverAll_def)

text \<open>
  C4. For a target that is not degenerate (\<open>d0 < d1\<close> or \<open>l0 < l1\<close>) the check returns false
  on the empty rectangle list, and more generally whenever no input rectangle passes the
  overlap test, so that the filter leaves nothing.
\<close>

theorem empty_input_false:
  assumes "d0 < d1 \<or> l0 < l1"
    and "\<forall>c\<in>set cameras. \<not> overlapsTarget d0 d1 l0 l1 c"
  shows "canCoverAll d0 d1 l0 l1 [] = Some False \<and>
         validCams d0 d1 l0 l1 cameras = [] \<and>
         canCoverAll d0 d1 l0 l1 cameras = Some False"
proof -
  from assms(1) have nd: "\<not> (d0 = d1 \<and> l0 = l1)" by auto
  from assms(2) have "validCams d0 d1 l0 l1 cameras = []" by (simp add: validCams_Nil_iff)
  with nd show ?thesis by (simp add: canCoverAll_def)
qed

theorem empty_input_false_witness:
  "canCoverAll 0 10 0 10 [] = Some False \<and>
   validCams 0 10 0 10 [\<lparr>dMin = 20, dMax = 30, lMin = 0, lMax = 10\<rparr>] = [] \<and>
   canCoverAll 0 10 0 10 [\<lparr>dMin = 20, dMax = 30, lMin = 0, lMax = 10\<rparr>] = Some False"
  using empty_input_false [of 0 10 0 10 "[\<lparr>dMin = 20, dMax = 30, lMin = 0, lMax = 10\<rparr>]"]
  by (simp add: overlapsTarget_def)

section \<open>The filter and the clamp\<close>

text \<open>
  C7. The filter-and-clip step keeps exactly the rectangles with
  \<open>dMax \<ge> distanceMin\<close>, \<open>dMin \<le> distanceMax\<close>, \<open>lMax \<ge> lightMin\<close> and \<open>lMin \<le> lightMax\<close>, in
  their order, each replaced by its clamp to the target; and the rectangles it drops do not
  influence the result: the check gives the same answer on the list without them.
\<close>

theorem filter_and_clip:
  "validCams d0 d1 l0 l1 cameras =
     map (\<lambda>c. \<lparr>dMin = max (dMin c) d0, dMax = min (dMax c) d1,
               lMin = max (lMin c) l0, lMax = min (lMax c) l1\<rparr>)
       (filter (\<lambda>c. dMax c \<ge> d0 \<and> dMin c \<le> d1 \<and> lMax c \<ge> l0 \<and> lMin c \<le> l1) cameras) \<and>
   canCoverAll d0 d1 l0 l1 cameras =
     canCoverAll d0 d1 l0 l1
       (filter (\<lambda>c. dMax c \<ge> d0 \<and> dMin c \<le> d1 \<and> lMax c \<ge> l0 \<and> lMin c \<le> l1) cameras)"
proof
  have ov: "overlapsTarget d0 d1 l0 l1 =
      (\<lambda>c. dMax c \<ge> d0 \<and> dMin c \<le> d1 \<and> lMax c \<ge> l0 \<and> lMin c \<le> l1)"
    by (simp add: overlapsTarget_def fun_eq_iff)
  have cl: "clampCam d0 d1 l0 l1 =
      (\<lambda>c. \<lparr>dMin = max (dMin c) d0, dMax = min (dMax c) d1,
            lMin = max (lMin c) l0, lMax = min (lMax c) l1\<rparr>)"
    by (simp add: clampCam_def fun_eq_iff max.commute min.commute)
  show "validCams d0 d1 l0 l1 cameras =
     map (\<lambda>c. \<lparr>dMin = max (dMin c) d0, dMax = min (dMax c) d1,
               lMin = max (lMin c) l0, lMax = min (lMax c) l1\<rparr>)
       (filter (\<lambda>c. dMax c \<ge> d0 \<and> dMin c \<le> d1 \<and> lMax c \<ge> l0 \<and> lMin c \<le> l1) cameras)"
    unfolding validCams_eq ov cl ..
  have "canCoverAll d0 d1 l0 l1 cameras =
        canCoverAll d0 d1 l0 l1 (filter (overlapsTarget d0 d1 l0 l1) cameras)"
  proof (cases "filter (overlapsTarget d0 d1 l0 l1) cameras = []")
    case True
    then have "validCams d0 d1 l0 l1 cameras = []" by (simp add: validCams_eq)
    with True show ?thesis by (simp add: canCoverAll_def)
  next
    case False
    then have "cameras \<noteq> []" by auto
    with False show ?thesis by (simp add: canCoverAll_def validCams_filter)
  qed
  then show "canCoverAll d0 d1 l0 l1 cameras =
     canCoverAll d0 d1 l0 l1
       (filter (\<lambda>c. dMax c \<ge> d0 \<and> dMin c \<le> d1 \<and> lMax c \<ge> l0 \<and> lMin c \<le> l1) cameras)"
    unfolding ov .
qed

section \<open>The usage example of the source\<close>

text \<open>
  C9. On the rectangles \<open>{0,10,0,5}\<close>, \<open>{0,10,5,10}\<close>, \<open>{10,20,0,10}\<close> and the target
  distance \<open>[0,20]\<close>, light \<open>[0,10]\<close>, the check returns true; the first two, whose light
  ranges meet exactly at 5, already cover the light range \<open>[0,10]\<close> over the distances
  \<open>[0,10]\<close>, and the third, which meets them at distance 10, covers the rest.
\<close>

theorem scenario_A_true:
  "canCoverAll 0 20 0 10
     [\<lparr>dMin = 0, dMax = 10, lMin = 0, lMax = 5\<rparr>,
      \<lparr>dMin = 0, dMax = 10, lMin = 5, lMax = 10\<rparr>,
      \<lparr>dMin = 10, dMax = 20, lMin = 0, lMax = 10\<rparr>] = Some True \<and>
   canCoverAll 0 10 0 10
     [\<lparr>dMin = 0, dMax = 10, lMin = 0, lMax = 5\<rparr>,
      \<lparr>dMin = 0, dMax = 10, lMin = 5, lMax = 10\<rparr>] = Some True \<and>
   canCoverAll 10 20 0 10 [\<lparr>dMin = 10, dMax = 20, lMin = 0, lMax = 10\<rparr>] = Some True"
  by code_simp

section \<open>No validation of the input\<close>

text \<open>
  C2, as the code has it. The function validates nothing and raises no error: on every
  input, a rectangle with \<open>dMin > dMax\<close> or \<open>lMin > lMax\<close> and a target with
  \<open>distanceMin > distanceMax\<close> or \<open>lightMin > lightMax\<close> included, it returns a boolean.
\<close>

theorem no_validation_total: "\<exists>b. canCoverAll d0 d1 l0 l1 cameras = Some b"
  using coverSweep_total [of d0 d1 l0 l1 "validCams d0 d1 l0 l1 cameras"]
  by (auto simp: canCoverAll_def Let_def)

text \<open>
  C2 fails as stated: an inverted rectangle and an inverted target are both accepted and
  answered with a boolean.
\<close>

theorem invalid_input_not_rejected:
  "canCoverAll 0 10 0 10 [\<lparr>dMin = 10, dMax = 0, lMin = 0, lMax = 10\<rparr>] = Some False \<and>
   canCoverAll 0 10 0 10 [\<lparr>dMin = 0, dMax = 10, lMin = 10, lMax = 0\<rparr>] = Some False \<and>
   canCoverAll 10 0 0 10 [\<lparr>dMin = 0, dMax = 10, lMin = 0, lMax = 10\<rparr>] = Some True \<and>
   canCoverAll 0 10 10 0 [\<lparr>dMin = 0, dMax = 10, lMin = 0, lMax = 10\<rparr>] = Some True"
  by code_simp

section \<open>Targets degenerate or inverted on one axis\<close>

lemma sweep_no_gap:
  assumes "d1 \<le> d0"
    and "\<forall>e\<in>set es. etype e \<noteq> 0 \<longrightarrow> (\<exists>a. li (e_lMin e) = Some a) \<and> (\<exists>b. li (e_lMax e) = Some b)"
  shows "sweep d0 d1 tot li es prev t = Some True"
  using assms(2)
proof (induction es arbitrary: prev t)
  case Nil
  then show ?case by simp
next
  case (Cons e es)
  have "\<not> min (dist e) d1 > max prev d0" using assms(1) by simp
  with Cons show ?case by auto
qed

lemma sweep_inert:
  assumes "\<not> js_lt (getCoveredLength t) (Some tot)"
    and "\<forall>e\<in>set es. etype e \<noteq> 0 \<longrightarrow>
          (\<exists>a b. li (e_lMin e) = Some a \<and> li (e_lMax e) = Some b \<and>
                 (\<forall>dl. update (int a) (int b) dl t = t))"
  shows "sweep d0 d1 tot li es prev t = Some True"
  using assms(2)
proof (induction es arbitrary: prev)
  case Nil
  then show ?case by simp
next
  case (Cons e es)
  with assms(1) show ?case by auto
qed

lemma validCams_inverted_distance:
  assumes "d1 \<le> d0" "c \<in> set (validCams d0 d1 l0 l1 cams)"
  shows "dMin c = d0 \<and> dMax c = d1"
  using assms by (auto simp: validCams_eq clampCam_def overlapsTarget_def)

lemma validCams_inverted_light:
  assumes "l1 \<le> l0" "c \<in> set (validCams d0 d1 l0 l1 cams)"
  shows "lMin c = l0 \<and> lMax c = l1"
  using assms by (auto simp: validCams_eq clampCam_def overlapsTarget_def)

lemma uniqueLightValues_flat:
  assumes "\<forall>c\<in>set vcs. lMin c = l0 \<and> lMax c = l1" "l1 \<le> l0"
  shows "uniqueLightValues l0 l1 vcs = (if l0 = l1 then [l0] else [l1, l0])"
proof (rule sorted_distinct_set_unique)
  show "sorted (uniqueLightValues l0 l1 vcs)" by (rule sorted_uniqueLightValues)
  show "distinct (uniqueLightValues l0 l1 vcs)" by (rule distinct_uniqueLightValues)
  show "sorted (if l0 = l1 then [l0] else [l1, l0])" using assms(2) by simp
  show "distinct (if l0 = l1 then [l0] else [l1, l0])" by simp
  show "set (uniqueLightValues l0 l1 vcs) = set (if l0 = l1 then [l0] else [l1, l0])"
    using assms(1) by (auto simp: set_uniqueLightValues)
qed

lemma event_cases:
  assumes "e \<in> set (sort_key dist (buildEvents d0 d1 vcs))" "etype e \<noteq> 0"
  shows "\<exists>c\<in>set vcs. e_lMin e = lMin c \<and> e_lMax e = lMax c \<and>
           (e = addEvent c \<or> e = removeEvent c)"
proof -
  from assms(1) have "e \<in> set (buildEvents d0 d1 vcs)" by simp
  with assms(2) show ?thesis
    by (auto simp: buildEvents_eq boundaryEvent_def addEvent_def removeEvent_def)
qed

lemma coverSweep_inverted_light:
  assumes "l1 \<le> l0" "\<forall>c\<in>set vcs. lMin c = l0 \<and> lMax c = l1"
  shows "coverSweep d0 d1 l0 l1 vcs = Some True"
proof -
  let ?vals = "uniqueLightValues l0 l1 vcs"
  let ?evs = "sort_key dist (buildEvents d0 d1 vcs)"
  obtain e es where ev: "?evs = e # es"
    using events_nonempty [of d0 d1 vcs] by (cases ?evs) auto
  have vals: "?vals = (if l0 = l1 then [l0] else [l1, l0])"
    by (rule uniqueLightValues_flat) (use assms in auto)
  have "\<exists>t a b. newSegmentTree ?vals = Some t \<and> \<not> js_lt (getCoveredLength t) (Some (l1 - l0)) \<and>
          lightIndex ?vals l0 = Some a \<and> lightIndex ?vals l1 = Some b \<and>
          (\<forall>dl. update (int a) (int b) dl t = t)"
  proof (cases "l0 = l1")
    case True
    have v1: "?vals = [l0]" using vals True by simp
    define t where "t = \<lparr>coords = [l0], tree_n = 0,
               coverCount = (\<lambda>i. if int i < 4 * 0 then Some 0 else None),
               coveredLen = (\<lambda>i. if int i < 4 * 0 then Some (0::int) else None)\<rparr>"
    have "newSegmentTree ?vals = Some t"
      unfolding v1 t_def by (simp add: newSegmentTree_def build.simps)
    moreover have "\<not> js_lt (getCoveredLength t) (Some (l1 - l0))"
      by (simp add: t_def getCoveredLength_def js_lt_def)
    moreover have "lightIndex ?vals l0 = Some 0"
      unfolding v1 using lightIndex_nth [of "[l0]" 0] by simp
    moreover have "update (int 0) (int 0) dl t = t" for dl
      by (simp add: t_def update_def updateRange.simps)
    ultimately show ?thesis using True by blast
  next
    case False
    with assms(1) have lt: "l1 < l0" by simp
    have v2: "?vals = [l1, l0]" using vals False by simp
    define t where "t = build 1 0 0 \<lparr>coords = [l1, l0], tree_n = 1,
               coverCount = (\<lambda>i. if int i < 4 * 1 then Some 0 else None),
               coveredLen = (\<lambda>i. if int i < 4 * 1 then Some (0::int) else None)\<rparr>"
    have "newSegmentTree ?vals = Some t"
      unfolding v2 t_def by (simp add: newSegmentTree_def)
    moreover have "getCoveredLength t = Some 0"
      by (simp add: t_def getCoveredLength_def build.simps)
    then have "\<not> js_lt (getCoveredLength t) (Some (l1 - l0))"
      using lt by (simp add: js_lt_def)
    moreover have "lightIndex ?vals l0 = Some 1" "lightIndex ?vals l1 = Some 0"
      unfolding v2 using lightIndex_nth [of "[l1, l0]" 1] lightIndex_nth [of "[l1, l0]" 0] False
      by simp_all
    moreover have "update (int 1) (int 0) dl t = t" for dl
      by (simp add: update_def)
    ultimately show ?thesis by blast
  qed
  then obtain t a b where t: "newSegmentTree ?vals = Some t"
    and cl: "\<not> js_lt (getCoveredLength t) (Some (l1 - l0))"
    and li: "lightIndex ?vals l0 = Some a" "lightIndex ?vals l1 = Some b"
    and up: "\<forall>dl. update (int a) (int b) dl t = t"
    by blast
  have "sweep d0 d1 (l1 - l0) (lightIndex ?vals) ?evs (dist e) t = Some True"
  proof (rule sweep_inert [OF cl], intro ballI impI)
    fix e assume "e \<in> set ?evs" "etype e \<noteq> 0"
    from event_cases [OF this] assms(2)
    have "e_lMin e = l0" "e_lMax e = l1" by auto
    with li up show "\<exists>a b. lightIndex ?vals (e_lMin e) = Some a \<and>
        lightIndex ?vals (e_lMax e) = Some b \<and> (\<forall>dl. update (int a) (int b) dl t = t)"
      by auto
  qed
  then show ?thesis by (simp add: coverSweep_def Let_def t ev)
qed

lemma coverSweep_inverted_distance:
  assumes "d1 \<le> d0"
  shows "coverSweep d0 d1 l0 l1 vcs = Some True"
proof -
  let ?vals = "uniqueLightValues l0 l1 vcs"
  let ?evs = "sort_key dist (buildEvents d0 d1 vcs)"
  obtain e es where ev: "?evs = e # es"
    using events_nonempty [of d0 d1 vcs] by (cases ?evs) auto
  obtain t where t: "newSegmentTree ?vals = Some t"
    using uniqueLightValues_nonempty [of l0 l1 vcs]
    by (cases ?vals) (auto simp: newSegmentTree_def Let_def)
  have "sweep d0 d1 (l1 - l0) (lightIndex ?vals) ?evs (dist e) t = Some True"
    by (rule sweep_no_gap [OF assms]) (use events_lookup in blast)
  then show ?thesis by (simp add: coverSweep_def Let_def t ev)
qed

lemma degenerate_axis_result:
  assumes "d1 \<le> d0 \<or> l1 \<le> l0" "\<not> (d0 = d1 \<and> l0 = l1)"
  shows "canCoverAll d0 d1 l0 l1 cams = Some (\<exists>c\<in>set cams. overlapsTarget d0 d1 l0 l1 c)"
proof (cases "validCams d0 d1 l0 l1 cams = []")
  case True
  with assms(2) show ?thesis by (auto simp: canCoverAll_def validCams_Nil_iff)
next
  case False
  then have ne: "cams \<noteq> []" by (auto simp: validCams_eq)
  from False have ex: "\<exists>c\<in>set cams. overlapsTarget d0 d1 l0 l1 c" by (simp add: validCams_Nil_iff)
  have "coverSweep d0 d1 l0 l1 (validCams d0 d1 l0 l1 cams) = Some True"
  proof (cases "d1 \<le> d0")
    case True
    then show ?thesis by (rule coverSweep_inverted_distance)
  next
    case False
    with assms(1) have "l1 \<le> l0" by simp
    then show ?thesis
      by (rule coverSweep_inverted_light) (use validCams_inverted_light \<open>l1 \<le> l0\<close> in blast)
  qed
  with False ne ex assms(2) show ?thesis by (simp add: canCoverAll_def)
qed

text \<open>
  C10. For a target degenerate on exactly one axis (\<open>d0 = d1\<close> with \<open>l0 < l1\<close>, or
  \<open>l0 = l1\<close> with \<open>d0 < d1\<close>) the check returns true as soon as one input rectangle passes
  the overlap test, whether or not the rectangles cover the target segment.
\<close>

theorem one_axis_degenerate_true:
  assumes "(d0 = d1 \<and> l0 < l1) \<or> (l0 = l1 \<and> d0 < d1)"
    and "\<exists>c\<in>set cameras. overlapsTarget d0 d1 l0 l1 c"
  shows "canCoverAll d0 d1 l0 l1 cameras = Some True"
proof -
  from assms(1) have "d1 \<le> d0 \<or> l1 \<le> l0" "\<not> (d0 = d1 \<and> l0 = l1)" by auto
  from degenerate_axis_result [OF this, of cameras] assms(2) show ?thesis by simp
qed

theorem one_axis_degenerate_true_witness:
  "canCoverAll 0 0 0 10 [\<lparr>dMin = 0, dMax = 10, lMin = 0, lMax = 5\<rparr>] = Some True \<and>
   canCoverAll 0 10 0 0 [\<lparr>dMin = 0, dMax = 5, lMin = 0, lMax = 0\<rparr>] = Some True"
  using one_axis_degenerate_true [of 0 0 0 10 "[\<lparr>dMin = 0, dMax = 10, lMin = 0, lMax = 5\<rparr>]"]
    one_axis_degenerate_true [of 0 10 0 0 "[\<lparr>dMin = 0, dMax = 5, lMin = 0, lMax = 0\<rparr>]"]
  by (simp add: overlapsTarget_def)

section \<open>The segment tree: frame and invariant\<close>

lemma sub_refl: "sub idx idx"
  unfolding sub_def by (rule exI [of _ 0]) simp

lemma sub_ge: "sub idx X \<Longrightarrow> idx \<le> X"
proof -
  assume "sub idx X"
  then obtain k where "idx * 2 ^ k \<le> X" unfolding sub_def by blast
  moreover have "idx \<le> idx * 2 ^ k" by simp
  ultimately show ?thesis by (rule order_trans [rotated])
qed

lemma sub_left: "sub (2 * idx) X \<Longrightarrow> sub idx X"
proof -
  assume "sub (2 * idx) X"
  then obtain k where k: "2 * idx * 2 ^ k \<le> X" "X < (2 * idx + 1) * 2 ^ k"
    unfolding sub_def by blast
  have "(2 * idx + 1) * 2 ^ k \<le> (2 * idx + 2) * 2 ^ k" by (rule mult_le_mono1) simp
  with k have "idx * 2 ^ Suc k \<le> X \<and> X < (idx + 1) * 2 ^ Suc k" by (simp add: algebra_simps)
  then show ?thesis unfolding sub_def by blast
qed

lemma sub_right: "sub (2 * idx + 1) X \<Longrightarrow> sub idx X"
proof -
  assume "sub (2 * idx + 1) X"
  then obtain k where k: "(2 * idx + 1) * 2 ^ k \<le> X" "X < (2 * idx + 1 + 1) * 2 ^ k"
    unfolding sub_def by blast
  have "2 * idx * 2 ^ k \<le> (2 * idx + 1) * 2 ^ k" by (rule mult_le_mono1) simp
  with k have "idx * 2 ^ Suc k \<le> X \<and> X < (idx + 1) * 2 ^ Suc k" by (simp add: algebra_simps)
  then show ?thesis unfolding sub_def by blast
qed

lemma sub_disjoint:
  assumes "0 < idx" "sub (2 * idx) X" "sub (2 * idx + 1) X"
  shows False
proof -
  from assms(2) obtain k where k: "2 * idx * 2 ^ k \<le> X" "X < (2 * idx + 1) * 2 ^ k"
    unfolding sub_def by blast
  from assms(3) obtain m where m: "(2 * idx + 1) * 2 ^ m \<le> X" "X < (2 * idx + 1 + 1) * 2 ^ m"
    unfolding sub_def by blast
  show False
  proof (cases "k \<le> m")
    case True
    then have "(2::nat) ^ k \<le> 2 ^ m" by (simp add: power_increasing)
    then have "(2 * idx + 1) * 2 ^ k \<le> (2 * idx + 1) * 2 ^ m" by (rule mult_le_mono2)
    with k m show False by linarith
  next
    case False
    then have "Suc m \<le> k" by simp
    then have "(2::nat) ^ Suc m \<le> 2 ^ k" by (rule power_increasing) simp
    then have "2 * idx * 2 ^ Suc m \<le> 2 * idx * 2 ^ k" by (rule mult_le_mono2)
    moreover have "(2 * idx + 1 + 1) * 2 ^ m \<le> 2 * idx * 2 ^ Suc m"
    proof -
      have "2 * idx + 1 + 1 \<le> 4 * idx" using assms(1) by simp
      then have "(2 * idx + 1 + 1) * 2 ^ m \<le> 4 * idx * 2 ^ m" by (rule mult_le_mono1)
      then show ?thesis by (simp add: algebra_simps)
    qed
    ultimately show False using k m by linarith
  qed
qed

lemma sub_not_parent:
  assumes "0 < idx"
  shows "\<not> sub (2 * idx) idx" "\<not> sub (2 * idx + 1) idx"
  using assms sub_ge [of "2 * idx" idx] sub_ge [of "2 * idx + 1" idx] by auto

lemma recompute_simps:
  "coords (recompute idx l r t) = coords t"
  "tree_n (recompute idx l r t) = tree_n t"
  "coverCount (recompute idx l r t) = coverCount t"
  "X \<noteq> idx \<Longrightarrow> coveredLen (recompute idx l r t) X = coveredLen t X"
  by (simp_all add: recompute_def)

lemma recompute_rule:
  assumes "0 < idx"
  shows "ruleAt (recompute idx l r t) idx l r"
  using assms by (simp add: ruleAt_def recompute_def)

lemma updateRange_outside:
  "ql > right \<or> qr < left \<Longrightarrow> updateRange idx left right ql qr d t = t"
  by (subst updateRange.simps) simp

lemma updateRange_full:
  "\<not> (ql > right \<or> qr < left) \<Longrightarrow> ql \<le> left \<and> right \<le> qr \<Longrightarrow>
   updateRange idx left right ql qr d t =
     recompute idx left right
       (t\<lparr>coverCount := (coverCount t)(idx := js_add (coverCount t idx) (Some d))\<rparr>)"
  by (subst updateRange.simps) simp

lemma updateRange_partial:
  "\<not> (ql > right \<or> qr < left) \<Longrightarrow> \<not> (ql \<le> left \<and> right \<le> qr) \<Longrightarrow>
   updateRange idx left right ql qr d t =
     recompute idx left right
       (updateRange (2 * idx + 1) ((left + right) div 2 + 1) right ql qr d
          (updateRange (2 * idx) left ((left + right) div 2) ql qr d t))"
  by (subst updateRange.simps) (auto simp: Let_def)

lemma updateRange_frame:
  "coords (updateRange idx l r ql qr d t) = coords t \<and>
   tree_n (updateRange idx l r ql qr d t) = tree_n t \<and>
   (\<not> sub idx X \<longrightarrow>
     coverCount (updateRange idx l r ql qr d t) X = coverCount t X \<and>
     coveredLen (updateRange idx l r ql qr d t) X = coveredLen t X)"
proof (induction idx l r ql qr d t rule: updateRange.induct)
  case (1 idx left right ql qr delta t)
  show ?case
  proof (cases "ql > right \<or> qr < left")
    case True
    then show ?thesis by (simp add: updateRange.simps)
  next
    case out: False
    show ?thesis
    proof (cases "ql \<le> left \<and> right \<le> qr")
      case True
      have "X \<noteq> idx" if "\<not> sub idx X" using that sub_refl by auto
      with out True show ?thesis
        by (auto simp: updateRange.simps [of idx left right] recompute_simps)
    next
      case False
      define mid where "mid = (left + right) div 2"
      define t1 where "t1 = updateRange (2 * idx) left mid ql qr delta t"
      define t2 where "t2 = updateRange (2 * idx + 1) (mid + 1) right ql qr delta t1"
      have res: "updateRange idx left right ql qr delta t = recompute idx left right t2"
        unfolding t2_def t1_def mid_def by (rule updateRange_partial [OF out False])
      have ih1: "coords t1 = coords t \<and> tree_n t1 = tree_n t \<and>
          (\<not> sub (2 * idx) X \<longrightarrow> coverCount t1 X = coverCount t X \<and> coveredLen t1 X = coveredLen t X)"
        unfolding t1_def using "1.IH"(1) [OF out False mid_def] .
      have ih2: "coords t2 = coords t1 \<and> tree_n t2 = tree_n t1 \<and>
          (\<not> sub (2 * idx + 1) X \<longrightarrow> coverCount t2 X = coverCount t1 X \<and> coveredLen t2 X = coveredLen t1 X)"
        unfolding t2_def using "1.IH"(2) [OF out False mid_def t1_def] .
      have ns: "\<not> sub (2 * idx) X \<and> \<not> sub (2 * idx + 1) X \<and> X \<noteq> idx" if "\<not> sub idx X"
        using that sub_left sub_right sub_refl by blast
      show ?thesis unfolding res using ih1 ih2 ns by (auto simp: recompute_simps)
    qed
  qed
qed

lemma inDecomp_outside:
  "ql > right \<or> qr < left \<Longrightarrow> inDecomp idx left right ql qr X = False"
  by (subst inDecomp.simps) simp

lemma inDecomp_full:
  "\<not> (ql > right \<or> qr < left) \<Longrightarrow> ql \<le> left \<and> right \<le> qr \<Longrightarrow>
   inDecomp idx left right ql qr X = (X = idx)"
  by (subst inDecomp.simps) simp

lemma inDecomp_partial:
  "\<not> (ql > right \<or> qr < left) \<Longrightarrow> \<not> (ql \<le> left \<and> right \<le> qr) \<Longrightarrow>
   inDecomp idx left right ql qr X =
     (inDecomp (2 * idx) left ((left + right) div 2) ql qr X \<or>
      inDecomp (2 * idx + 1) ((left + right) div 2 + 1) right ql qr X)"
  by (subst inDecomp.simps) auto

lemma inDecomp_sub: "inDecomp idx l r ql qr X \<Longrightarrow> sub idx X"
proof (induction idx l r ql qr X rule: inDecomp.induct)
  case (1 idx left right ql qr X)
  show ?case
  proof (cases "ql > right \<or> qr < left")
    case True
    with "1.prems" show ?thesis by (simp add: inDecomp.simps)
  next
    case out: False
    show ?thesis
    proof (cases "ql \<le> left \<and> right \<le> qr")
      case True
      with out "1.prems" show ?thesis by (simp add: inDecomp.simps [of idx left right] sub_refl)
    next
      case False
      with out "1.prems" have "inDecomp (2 * idx) left ((left + right) div 2) ql qr X \<or>
           inDecomp (2 * idx + 1) ((left + right) div 2 + 1) right ql qr X"
        by (simp add: inDecomp.simps [of idx left right])
      with "1.IH" [OF out False] show ?thesis using sub_left sub_right by blast
    qed
  qed
qed

lemma onPath_sub: "onPath idx l r i X \<Longrightarrow> sub idx X"
proof (induction idx l r i X rule: onPath.induct)
  case (1 idx left right i X)
  show ?case
  proof (cases "X = idx")
    case True
    then show ?thesis by (simp add: sub_refl)
  next
    case ne: False
    with "1.prems" have lr: "left < right" by (simp add: onPath.simps [of idx left right] split: if_splits)
    show ?thesis
    proof (cases "i \<le> (left + right) div 2")
      case True
      with ne lr "1.prems" have "onPath (2 * idx) left ((left + right) div 2) i X"
        by (simp add: onPath.simps [of idx left right])
      from "1.IH"(1) [OF lr True this] show ?thesis by (rule sub_left)
    next
      case False
      with ne lr "1.prems" have "onPath (2 * idx + 1) ((left + right) div 2 + 1) right i X"
        by (simp add: onPath.simps [of idx left right])
      from "1.IH"(2) [OF lr False this] show ?thesis by (rule sub_right)
    qed
  qed
qed

lemma partial_overlap_lt:
  fixes left right ql qr :: int
  assumes "\<not> (ql > right \<or> qr < left)" "\<not> (ql \<le> left \<and> right \<le> qr)"
  shows "left < right"
  using assms by linarith

lemma updateRange_count:
  "0 < idx \<Longrightarrow>
   coverCount (updateRange idx l r ql qr d t) X =
     (if inDecomp idx l r ql qr X then js_add (coverCount t X) (Some d) else coverCount t X)"
proof (induction idx l r ql qr d t rule: updateRange.induct)
  case (1 idx left right ql qr delta t)
  show ?case
  proof (cases "ql > right \<or> qr < left")
    case True
    then show ?thesis by (simp add: updateRange.simps inDecomp.simps)
  next
    case out: False
    show ?thesis
    proof (cases "ql \<le> left \<and> right \<le> qr")
      case True
      with out show ?thesis
        by (simp add: updateRange.simps [of idx left right] inDecomp.simps [of idx left right]
            recompute_simps)
    next
      case False
      define mid where "mid = (left + right) div 2"
      define t1 where "t1 = updateRange (2 * idx) left mid ql qr delta t"
      define t2 where "t2 = updateRange (2 * idx + 1) (mid + 1) right ql qr delta t1"
      have res: "updateRange idx left right ql qr delta t = recompute idx left right t2"
        unfolding t2_def t1_def mid_def by (rule updateRange_partial [OF out False])
      have dec: "inDecomp idx left right ql qr X \<longleftrightarrow>
          inDecomp (2 * idx) left mid ql qr X \<or> inDecomp (2 * idx + 1) (mid + 1) right ql qr X"
        unfolding mid_def by (rule inDecomp_partial [OF out False])
      have ih1: "coverCount t1 X =
          (if inDecomp (2 * idx) left mid ql qr X then js_add (coverCount t X) (Some delta)
           else coverCount t X)"
        unfolding t1_def using "1.IH"(1) [OF out False mid_def] "1.prems" by simp
      have ih2: "coverCount t2 X =
          (if inDecomp (2 * idx + 1) (mid + 1) right ql qr X then js_add (coverCount t1 X) (Some delta)
           else coverCount t1 X)"
        unfolding t2_def using "1.IH"(2) [OF out False mid_def t1_def] "1.prems" by simp
      have disj: "\<not> (inDecomp (2 * idx) left mid ql qr X \<and>
                    inDecomp (2 * idx + 1) (mid + 1) right ql qr X)"
        using sub_disjoint [OF "1.prems"] inDecomp_sub by blast
      show ?thesis unfolding res using ih1 ih2 disj dec by (auto simp: recompute_simps)
    qed
  qed
qed

lemma wfT_cong:
  assumes "coords t' = coords t"
    and "\<And>X. sub idx X \<Longrightarrow> coverCount t' X = coverCount t X \<and> coveredLen t' X = coveredLen t X"
  shows "wfT t' idx l r = wfT t idx l r"
  using assms
proof (induction t idx l r rule: wfT.induct)
  case (1 t idx left right)
  note co = "1.prems"(1) and eq = "1.prems"(2)
  have self: "coverCount t' idx = coverCount t idx" "coveredLen t' idx = coveredLen t idx"
    using eq [OF sub_refl] by simp_all
  have kids: "coveredLen t' (2 * idx) = coveredLen t (2 * idx)"
      "coveredLen t' (2 * idx + 1) = coveredLen t (2 * idx + 1)"
    using eq [OF sub_left [OF sub_refl]] eq [OF sub_right [OF sub_refl]]
    by simp_all
  from kids(2) have kids': "coveredLen t' (Suc (2 * idx)) = coveredLen t (Suc (2 * idx))"
    by simp
  have rule: "ruleAt t' idx left right = ruleAt t idx left right"
    by (simp add: ruleAt_def self kids kids' co)
  show ?case
  proof (cases "left < right")
    case True
    have "wfT t' (2 * idx) left ((left + right) div 2) = wfT t (2 * idx) left ((left + right) div 2)"
      by (rule "1.IH"(1) [OF True co]) (rule eq [OF sub_left])
    moreover have "wfT t' (2 * idx + 1) ((left + right) div 2 + 1) right =
        wfT t (2 * idx + 1) ((left + right) div 2 + 1) right"
      by (rule "1.IH"(2) [OF True co]) (rule eq [OF sub_right])
    ultimately show ?thesis
      using True by (simp add: wfT.simps [of _ idx left right] self rule)
  next
    case False
    then show ?thesis by (simp add: wfT.simps [of _ idx left right] self rule)
  qed
qed

lemma wfT_node: "wfT t idx l r \<Longrightarrow> (\<exists>c. coverCount t idx = Some c) \<and> ruleAt t idx l r"
  by (subst (asm) wfT.simps) simp

lemma wfT_children:
  "wfT t idx l r \<Longrightarrow> l < r \<Longrightarrow>
   wfT t (2 * idx) l ((l + r) div 2) \<and> wfT t (2 * idx + 1) ((l + r) div 2 + 1) r"
  by (subst (asm) wfT.simps) simp

lemma wfT_intro:
  assumes "\<exists>c. coverCount t idx = Some c" "ruleAt t idx l r"
    and "l < r \<Longrightarrow> wfT t (2 * idx) l ((l + r) div 2) \<and> wfT t (2 * idx + 1) ((l + r) div 2 + 1) r"
  shows "wfT t idx l r"
  using assms by (subst wfT.simps) auto

lemma updateRange_wfT:
  "0 < idx \<Longrightarrow> wfT t idx l r \<Longrightarrow> wfT (updateRange idx l r ql qr d t) idx l r"
proof (induction idx l r ql qr d t rule: updateRange.induct)
  case (1 idx left right ql qr delta t)
  note pos = "1.prems"(1) and wf = "1.prems"(2)
  from wfT_node [OF wf] obtain c where c: "coverCount t idx = Some c" by blast
  show ?case
  proof (cases "ql > right \<or> qr < left")
    case True
    with wf show ?thesis by (simp add: updateRange_outside)
  next
    case out: False
    show ?thesis
    proof (cases "ql \<le> left \<and> right \<le> qr")
      case True
      define t' where "t' = recompute idx left right
         (t\<lparr>coverCount := (coverCount t)(idx := js_add (coverCount t idx) (Some delta))\<rparr>)"
      have res: "updateRange idx left right ql qr delta t = t'"
        unfolding t'_def by (rule updateRange_full [OF out True])
      have co: "coords t' = coords t" by (simp add: t'_def recompute_simps)
      have same: "coverCount t' X = coverCount t X \<and> coveredLen t' X = coveredLen t X"
        if "X \<noteq> idx" for X
        using that by (simp add: t'_def recompute_simps)
      have "wfT t' idx left right"
      proof (rule wfT_intro)
        show "\<exists>c. coverCount t' idx = Some c"
          by (simp add: t'_def recompute_simps c js_add_def)
        show "ruleAt t' idx left right" unfolding t'_def by (rule recompute_rule [OF pos])
        assume lr: "left < right"
        have "wfT t' (2 * idx) left ((left + right) div 2) = wfT t (2 * idx) left ((left + right) div 2)"
        proof (rule wfT_cong [OF co])
          fix X assume "sub (2 * idx) X"
          with sub_not_parent(1) [OF pos] have "X \<noteq> idx" by auto
          then show "coverCount t' X = coverCount t X \<and> coveredLen t' X = coveredLen t X"
            by (rule same)
        qed
        moreover have "wfT t' (2 * idx + 1) ((left + right) div 2 + 1) right =
            wfT t (2 * idx + 1) ((left + right) div 2 + 1) right"
        proof (rule wfT_cong [OF co])
          fix X assume "sub (2 * idx + 1) X"
          with sub_not_parent(2) [OF pos] have "X \<noteq> idx" by auto
          then show "coverCount t' X = coverCount t X \<and> coveredLen t' X = coveredLen t X"
            by (rule same)
        qed
        ultimately show "wfT t' (2 * idx) left ((left + right) div 2) \<and>
            wfT t' (2 * idx + 1) ((left + right) div 2 + 1) right"
          using wfT_children [OF wf lr] by simp
      qed
      then show ?thesis unfolding res .
    next
      case False
      have lr: "left < right" by (rule partial_overlap_lt [OF out False])
      define mid where "mid = (left + right) div 2"
      define t1 where "t1 = updateRange (2 * idx) left mid ql qr delta t"
      define t2 where "t2 = updateRange (2 * idx + 1) (mid + 1) right ql qr delta t1"
      define t3 where "t3 = recompute idx left right t2"
      have res: "updateRange idx left right ql qr delta t = t3"
        unfolding t3_def t2_def t1_def mid_def by (rule updateRange_partial [OF out False])
      from wfT_children [OF wf lr]
      have wL: "wfT t (2 * idx) left mid" and wR: "wfT t (2 * idx + 1) (mid + 1) right"
        by (simp_all add: mid_def)
      have f1: "coords t1 = coords t"
        "\<And>X. \<not> sub (2 * idx) X \<Longrightarrow> coverCount t1 X = coverCount t X \<and> coveredLen t1 X = coveredLen t X"
        unfolding t1_def using updateRange_frame [of "2 * idx" left mid ql qr delta t] by auto
      have f2: "coords t2 = coords t1"
        "\<And>X. \<not> sub (2 * idx + 1) X \<Longrightarrow> coverCount t2 X = coverCount t1 X \<and> coveredLen t2 X = coveredLen t1 X"
        unfolding t2_def using updateRange_frame [of "2 * idx + 1" "mid + 1" right ql qr delta t1] by auto
      have f3: "coords t3 = coords t2" "coverCount t3 = coverCount t2"
        "\<And>X. X \<noteq> idx \<Longrightarrow> coveredLen t3 X = coveredLen t2 X"
        by (simp_all add: t3_def recompute_simps)
      have pos2: "0 < 2 * idx" "0 < 2 * idx + 1" using pos by simp_all
      have w1L: "wfT t1 (2 * idx) left mid"
        unfolding t1_def using "1.IH"(1) [OF out False mid_def pos2(1) wL] .
      have "wfT t1 (2 * idx + 1) (mid + 1) right = wfT t (2 * idx + 1) (mid + 1) right"
      proof (rule wfT_cong [OF f1(1)])
        fix X assume "sub (2 * idx + 1) X"
        with sub_disjoint [OF pos] have "\<not> sub (2 * idx) X" by blast
        then show "coverCount t1 X = coverCount t X \<and> coveredLen t1 X = coveredLen t X"
          by (rule f1(2))
      qed
      with wR have w1R: "wfT t1 (2 * idx + 1) (mid + 1) right" by simp
      have w2R: "wfT t2 (2 * idx + 1) (mid + 1) right"
        unfolding t2_def using "1.IH"(2) [OF out False mid_def t1_def pos2(2) w1R] .
      have "wfT t2 (2 * idx) left mid = wfT t1 (2 * idx) left mid"
      proof (rule wfT_cong [OF f2(1)])
        fix X assume "sub (2 * idx) X"
        with sub_disjoint [OF pos] have "\<not> sub (2 * idx + 1) X" by blast
        then show "coverCount t2 X = coverCount t1 X \<and> coveredLen t2 X = coveredLen t1 X"
          by (rule f2(2))
      qed
      with w1L have w2L: "wfT t2 (2 * idx) left mid" by simp
      have "wfT t3 (2 * idx) left mid = wfT t2 (2 * idx) left mid"
      proof (rule wfT_cong [OF f3(1)])
        fix X assume "sub (2 * idx) X"
        with sub_not_parent(1) [OF pos] have "X \<noteq> idx" by auto
        then show "coverCount t3 X = coverCount t2 X \<and> coveredLen t3 X = coveredLen t2 X"
          by (simp add: f3)
      qed
      with w2L have w3L: "wfT t3 (2 * idx) left mid" by simp
      have "wfT t3 (2 * idx + 1) (mid + 1) right = wfT t2 (2 * idx + 1) (mid + 1) right"
      proof (rule wfT_cong [OF f3(1)])
        fix X assume "sub (2 * idx + 1) X"
        with sub_not_parent(2) [OF pos] have "X \<noteq> idx" by auto
        then show "coverCount t3 X = coverCount t2 X \<and> coveredLen t3 X = coveredLen t2 X"
          by (simp add: f3)
      qed
      with w2R have w3R: "wfT t3 (2 * idx + 1) (mid + 1) right" by simp
      have cnt: "coverCount t3 idx = coverCount t idx"
        using f3(2) f2(2) [OF sub_not_parent(2) [OF pos]] f1(2) [OF sub_not_parent(1) [OF pos]]
        by simp
      have "wfT t3 idx left right"
      proof (rule wfT_intro)
        show "\<exists>c. coverCount t3 idx = Some c" using cnt c by simp
        show "ruleAt t3 idx left right" unfolding t3_def by (rule recompute_rule [OF pos])
        show "wfT t3 (2 * idx) left ((left + right) div 2) \<and>
            wfT t3 (2 * idx + 1) ((left + right) div 2 + 1) right"
          using w3L w3R by (simp add: mid_def)
      qed
      then show ?thesis unfolding res .
    qed
  qed
qed

section \<open>What the cached lengths measure\<close>

lemma sum_split_int:
  fixes l m r :: int
  assumes "l \<le> m" "m < r"
  shows "(\<Sum>i\<in>{l..r}. f i) = (\<Sum>i\<in>{l..m}. f i) + (\<Sum>i\<in>{m + 1..r}. (f i :: int))"
proof -
  have "{l..r} = {l..m} \<union> {m + 1..r}" using assms by auto
  moreover have "{l..m} \<inter> {m + 1..r} = {}" by auto
  ultimately show ?thesis by (simp add: sum.union_disjoint)
qed

lemma width_telescope:
  fixes l r :: int
  assumes "0 \<le> l" "l \<le> r"
  shows "(\<Sum>i\<in>{l..r}. width cs i) = cs ! nat (r + 1) - cs ! nat l"
  using assms(2)
proof (induction r rule: int_ge_induct)
  case base
  show ?case by (simp add: width_def)
next
  case (step r)
  have "(\<Sum>i\<in>{l..r + 1}. width cs i) = (\<Sum>i\<in>{l..r}. width cs i) + (\<Sum>i\<in>{r + 1..r + 1}. width cs i)"
    by (rule sum_split_int) (use step in auto)
  with step show ?case by (simp add: width_def)
qed

lemma onPath_self: "onPath idx l r i idx"
  by (subst onPath.simps) simp

lemma onPath_leaf: "\<not> l < r \<Longrightarrow> onPath idx l r i X = (X = idx)"
  by (subst onPath.simps) simp

lemma onPath_inner:
  "l < r \<Longrightarrow> onPath idx l r i X =
     (X = idx \<or> (if i \<le> (l + r) div 2 then onPath (2 * idx) l ((l + r) div 2) i X
                  else onPath (2 * idx + 1) ((l + r) div 2 + 1) r i X))"
  by (subst onPath.simps) simp

lemma wfT_coveredLen:
  assumes "wfT t idx l r" "0 \<le> l" "l \<le> r" "r + 1 < int (length (coords t))"
  shows "coveredLen t idx =
         Some (\<Sum>i\<in>{l..r}. if posPath t idx l r i then width (coords t) i else 0)"
  using assms
proof (induction t idx l r rule: wfT.induct)
  case (1 t idx left right)
  note wf = "1.prems"(1) and l0 = "1.prems"(2) and lr = "1.prems"(3) and rn = "1.prems"(4)
  from wfT_node [OF wf] have rule: "ruleAt t idx left right" by simp
  show ?case
  proof (cases "js_lt (Some 0) (coverCount t idx)")
    case True
    then have "posPath t idx left right i" for i
      unfolding posPath_def using onPath_self by blast
    then have "(\<Sum>i\<in>{left..right}. if posPath t idx left right i then width (coords t) i else 0) =
        (\<Sum>i\<in>{left..right}. width (coords t) i)" by simp
    also have "\<dots> = coords t ! nat (right + 1) - coords t ! nat left"
      by (rule width_telescope [OF l0 lr])
    finally have s: "(\<Sum>i\<in>{left..right}. if posPath t idx left right i then width (coords t) i else 0) =
        coords t ! nat (right + 1) - coords t ! nat left" .
    from rule True have "coveredLen t idx =
        js_sub (js_nth (coords t) (right + 1)) (js_nth (coords t) left)"
      by (simp add: ruleAt_def)
    also have "\<dots> = Some (coords t ! nat (right + 1) - coords t ! nat left)"
      using l0 lr rn by (simp add: js_nth_def js_sub_def)
    finally show ?thesis unfolding s .
  next
    case npos: False
    show ?thesis
    proof (cases "left = right")
      case True
      have "\<not> posPath t idx left right i" for i
        unfolding posPath_def using True npos by (simp add: onPath_leaf)
      moreover from rule npos True have "coveredLen t idx = Some 0" by (simp add: ruleAt_def)
      ultimately show ?thesis by simp
    next
      case False
      with lr have lt: "left < right" by simp
      define mid where "mid = (left + right) div 2"
      have m: "left \<le> mid" "mid < right" using lt by (simp_all add: mid_def)
      from wfT_children [OF wf lt]
      have wL: "wfT t (2 * idx) left mid" and wR: "wfT t (2 * idx + 1) (mid + 1) right"
        by (simp_all add: mid_def)
      have cL: "coveredLen t (2 * idx) =
          Some (\<Sum>i\<in>{left..mid}. if posPath t (2 * idx) left mid i then width (coords t) i else 0)"
        unfolding mid_def by (rule "1.IH"(1) [OF lt]) (use wL l0 m rn in \<open>simp_all add: mid_def\<close>)
      have cR: "coveredLen t (2 * idx + 1) =
          Some (\<Sum>i\<in>{mid + 1..right}. if posPath t (2 * idx + 1) (mid + 1) right i
                                        then width (coords t) i else 0)"
        unfolding mid_def by (rule "1.IH"(2) [OF lt]) (use wR l0 m rn in \<open>simp_all add: mid_def\<close>)
      have pL: "posPath t idx left right i = posPath t (2 * idx) left mid i" if "i \<le> mid" for i
        unfolding posPath_def using that npos lt by (auto simp: onPath_inner mid_def)
      have pR: "posPath t idx left right i = posPath t (2 * idx + 1) (mid + 1) right i"
        if "mid < i" for i
        unfolding posPath_def using that npos lt by (auto simp: onPath_inner mid_def)
      have "(\<Sum>i\<in>{left..right}. if posPath t idx left right i then width (coords t) i else 0) =
          (\<Sum>i\<in>{left..mid}. if posPath t idx left right i then width (coords t) i else 0) +
          (\<Sum>i\<in>{mid + 1..right}. if posPath t idx left right i then width (coords t) i else 0)"
        by (rule sum_split_int [OF m])
      also have "(\<Sum>i\<in>{left..mid}. if posPath t idx left right i then width (coords t) i else 0) =
          (\<Sum>i\<in>{left..mid}. if posPath t (2 * idx) left mid i then width (coords t) i else 0)"
        by (rule sum.cong) (simp_all add: pL)
      also have "(\<Sum>i\<in>{mid + 1..right}. if posPath t idx left right i then width (coords t) i else 0) =
          (\<Sum>i\<in>{mid + 1..right}. if posPath t (2 * idx + 1) (mid + 1) right i
                                  then width (coords t) i else 0)"
        by (rule sum.cong) (simp_all add: pR)
      finally have s: "(\<Sum>i\<in>{left..right}. if posPath t idx left right i then width (coords t) i else 0) =
          (\<Sum>i\<in>{left..mid}. if posPath t (2 * idx) left mid i then width (coords t) i else 0) +
          (\<Sum>i\<in>{mid + 1..right}. if posPath t (2 * idx + 1) (mid + 1) right i
                                  then width (coords t) i else 0)" .
      from rule npos False have "coveredLen t idx =
          js_add (coveredLen t (2 * idx)) (coveredLen t (2 * idx + 1))"
        by (simp add: ruleAt_def)
      then show ?thesis unfolding s cL cR by (simp add: js_add_def)
    qed
  qed
qed

lemma decomp_path:
  assumes "0 < idx" "l \<le> i" "i \<le> r"
  shows "(\<exists>X. onPath idx l r i X \<and> inDecomp idx l r ql qr X) \<longleftrightarrow> (ql \<le> i \<and> i \<le> qr)"
  using assms
proof (induction "nat (r - l)" arbitrary: idx l r rule: less_induct)
  case less
  note pos = less.prems(1) and li = less.prems(2) and ir = less.prems(3)
  show ?case
  proof (cases "ql > r \<or> qr < l")
    case True
    then have "\<not> (ql \<le> i \<and> i \<le> qr)" using li ir by auto
    with True show ?thesis by (simp add: inDecomp_outside)
  next
    case out: False
    show ?thesis
    proof (cases "ql \<le> l \<and> r \<le> qr")
      case True
      then have "ql \<le> i \<and> i \<le> qr" using li ir by auto
      moreover have "onPath idx l r i idx \<and> inDecomp idx l r ql qr idx"
        using onPath_self inDecomp_full [OF out True] by simp
      ultimately show ?thesis by blast
    next
      case False
      have lr: "l < r" by (rule partial_overlap_lt [OF out False])
      define mid where "mid = (l + r) div 2"
      have m: "l \<le> mid" "mid < r" using lr by (simp_all add: mid_def)
      have dec: "inDecomp idx l r ql qr X \<longleftrightarrow>
          inDecomp (2 * idx) l mid ql qr X \<or> inDecomp (2 * idx + 1) (mid + 1) r ql qr X" for X
        unfolding mid_def by (rule inDecomp_partial [OF out False])
      have notself: "\<not> inDecomp idx l r ql qr idx"
        unfolding dec using inDecomp_sub sub_not_parent [OF pos] by blast
      have pos2: "0 < 2 * idx" "0 < 2 * idx + 1" using pos by simp_all
      show ?thesis
      proof (cases "i \<le> mid")
        case True
        have path: "onPath idx l r i X \<longleftrightarrow> X = idx \<or> onPath (2 * idx) l mid i X" for X
          using True lr by (simp add: onPath_inner mid_def)
        have "(\<exists>X. onPath idx l r i X \<and> inDecomp idx l r ql qr X) \<longleftrightarrow>
              (\<exists>X. onPath (2 * idx) l mid i X \<and> inDecomp (2 * idx) l mid ql qr X)"
        proof
          assume "\<exists>X. onPath idx l r i X \<and> inDecomp idx l r ql qr X"
          then obtain X where X: "onPath idx l r i X" "inDecomp idx l r ql qr X" by blast
          with notself have "X \<noteq> idx" by auto
          with X(1) have p: "onPath (2 * idx) l mid i X" by (simp add: path)
          then have "sub (2 * idx) X" by (rule onPath_sub)
          with sub_disjoint [OF pos] inDecomp_sub
          have "\<not> inDecomp (2 * idx + 1) (mid + 1) r ql qr X" by blast
          with X(2) have "inDecomp (2 * idx) l mid ql qr X" by (simp add: dec)
          with p show "\<exists>X. onPath (2 * idx) l mid i X \<and> inDecomp (2 * idx) l mid ql qr X" by blast
        next
          assume "\<exists>X. onPath (2 * idx) l mid i X \<and> inDecomp (2 * idx) l mid ql qr X"
          then show "\<exists>X. onPath idx l r i X \<and> inDecomp idx l r ql qr X"
            using path dec by blast
        qed
        also have "\<dots> \<longleftrightarrow> (ql \<le> i \<and> i \<le> qr)"
          by (rule less.hyps) (use m li True pos2 in auto)
        finally show ?thesis .
      next
        case False
        have path: "onPath idx l r i X \<longleftrightarrow> X = idx \<or> onPath (2 * idx + 1) (mid + 1) r i X" for X
          using False lr by (simp add: onPath_inner mid_def)
        have "(\<exists>X. onPath idx l r i X \<and> inDecomp idx l r ql qr X) \<longleftrightarrow>
              (\<exists>X. onPath (2 * idx + 1) (mid + 1) r i X \<and> inDecomp (2 * idx + 1) (mid + 1) r ql qr X)"
        proof
          assume "\<exists>X. onPath idx l r i X \<and> inDecomp idx l r ql qr X"
          then obtain X where X: "onPath idx l r i X" "inDecomp idx l r ql qr X" by blast
          with notself have "X \<noteq> idx" by auto
          with X(1) have p: "onPath (2 * idx + 1) (mid + 1) r i X" by (simp add: path)
          then have "sub (2 * idx + 1) X" by (rule onPath_sub)
          with sub_disjoint [OF pos] inDecomp_sub
          have "\<not> inDecomp (2 * idx) l mid ql qr X" by blast
          with X(2) have "inDecomp (2 * idx + 1) (mid + 1) r ql qr X" by (simp add: dec)
          with p show "\<exists>X. onPath (2 * idx + 1) (mid + 1) r i X \<and>
              inDecomp (2 * idx + 1) (mid + 1) r ql qr X" by blast
        next
          assume "\<exists>X. onPath (2 * idx + 1) (mid + 1) r i X \<and>
              inDecomp (2 * idx + 1) (mid + 1) r ql qr X"
          then show "\<exists>X. onPath idx l r i X \<and> inDecomp idx l r ql qr X"
            using path dec by blast
        qed
        also have "\<dots> \<longleftrightarrow> (ql \<le> i \<and> i \<le> qr)"
          by (rule less.hyps) (use m ir False pos2 in auto)
        finally show ?thesis .
      qed
    qed
  qed
qed

section \<open>The tree after construction\<close>

lemma nodeBound_root: "1 \<le> n \<Longrightarrow> nodeBound n 1 0 (n - 1)"
  unfolding nodeBound_def by (rule exI [of _ 1]) simp

lemma nodeBound_lt: "nodeBound n idx l r \<Longrightarrow> int idx < 4 * n"
  unfolding nodeBound_def by auto

lemma nodeBound_left:
  assumes "nodeBound n idx l r" "l < r"
  shows "nodeBound n (2 * idx) l ((l + r) div 2)"
proof -
  from assms(1) obtain P :: int where P: "1 \<le> P" "int idx < 2 * P"
      "(r - l + 1) * P \<le> n + P - 1" "2 * P \<le> 4 * n"
    unfolding nodeBound_def by blast
  have a: "2 * ((l + r) div 2 - l + 1) \<le> r - l + 2" by presburger
  have "((l + r) div 2 - l + 1) * (2 * P) = (2 * ((l + r) div 2 - l + 1)) * P" by simp
  also have "\<dots> \<le> (r - l + 2) * P" using a P(1) by (intro mult_right_mono) auto
  also have "\<dots> = (r - l + 1) * P + P" by (simp add: algebra_simps)
  finally have s: "((l + r) div 2 - l + 1) * (2 * P) \<le> n + 2 * P - 1" using P(3) by linarith
  have "2 * P \<le> (r - l + 1) * P" using assms(2) P(1) by (intro mult_right_mono) auto
  with P(3) have "P \<le> n - 1" by linarith
  with P(1,2) s show ?thesis
    unfolding nodeBound_def by (intro exI [of _ "2 * P"]) auto
qed

lemma nodeBound_right:
  assumes "nodeBound n idx l r" "l < r"
  shows "nodeBound n (2 * idx + 1) ((l + r) div 2 + 1) r"
proof -
  from assms(1) obtain P :: int where P: "1 \<le> P" "int idx < 2 * P"
      "(r - l + 1) * P \<le> n + P - 1" "2 * P \<le> 4 * n"
    unfolding nodeBound_def by blast
  have a: "2 * (r - ((l + r) div 2 + 1) + 1) \<le> r - l + 2" by presburger
  have "(r - ((l + r) div 2 + 1) + 1) * (2 * P) = (2 * (r - ((l + r) div 2 + 1) + 1)) * P" by simp
  also have "\<dots> \<le> (r - l + 2) * P" using a P(1) by (intro mult_right_mono) auto
  also have "\<dots> = (r - l + 1) * P + P" by (simp add: algebra_simps)
  finally have s: "(r - ((l + r) div 2 + 1) + 1) * (2 * P) \<le> n + 2 * P - 1" using P(3) by linarith
  have "2 * P \<le> (r - l + 1) * P" using assms(2) P(1) by (intro mult_right_mono) auto
  with P(3) have "P \<le> n - 1" by linarith
  with P(1,2) s show ?thesis
    unfolding nodeBound_def by (intro exI [of _ "2 * P"]) auto
qed

lemma onPath_bound:
  "nodeBound n idx l r \<Longrightarrow> onPath idx l r i X \<Longrightarrow> int X < 4 * n"
proof (induction idx l r i X rule: onPath.induct)
  case (1 idx left right i X)
  show ?case
  proof (cases "X = idx")
    case True
    with "1.prems"(1) show ?thesis by (simp add: nodeBound_lt)
  next
    case ne: False
    with "1.prems"(2) have lr: "left < right" by (cases "left < right") (simp_all add: onPath_leaf)
    show ?thesis
    proof (cases "i \<le> (left + right) div 2")
      case True
      with ne lr "1.prems"(2) have "onPath (2 * idx) left ((left + right) div 2) i X"
        by (simp add: onPath_inner)
      from "1.IH"(1) [OF lr True nodeBound_left [OF "1.prems"(1) lr] this] show ?thesis .
    next
      case False
      with ne lr "1.prems"(2) have "onPath (2 * idx + 1) ((left + right) div 2 + 1) right i X"
        by (simp add: onPath_inner)
      from "1.IH"(2) [OF lr False nodeBound_right [OF "1.prems"(1) lr] this] show ?thesis .
    qed
  qed
qed

lemma build_noop:
  "nodeBound n idx l r \<Longrightarrow> \<forall>X. int X < 4 * n \<longrightarrow> coveredLen t X = Some 0 \<Longrightarrow>
   build idx l r t = t"
proof (induction idx l r t rule: build.induct)
  case (1 idx left right t)
  note nb = "1.prems"(1) and z = "1.prems"(2)
  have self: "(coveredLen t)(idx := Some 0) = coveredLen t"
    using z nodeBound_lt [OF nb] by (auto simp: fun_eq_iff)
  show ?case
  proof (cases "left > right")
    case True
    then show ?thesis by (subst build.simps) simp
  next
    case le: False
    show ?thesis
    proof (cases "left = right")
      case True
      then show ?thesis by (subst build.simps) (simp add: self)
    next
      case False
      with le have lr: "left < right" by simp
      define mid where "mid = (left + right) div 2"
      have b1: "build (2 * idx) left mid t = t"
        using "1.IH"(1) [OF le False mid_def nodeBound_left [OF nb lr, folded mid_def] z] .
      have b2: "build (2 * idx + 1) (mid + 1) right t = t"
        using "1.IH"(2) [OF le False mid_def b1 [symmetric]
            nodeBound_right [OF nb lr, folded mid_def] z] .
      from b2 have b2': "build (Suc (2 * idx)) (mid + 1) right t = t" by simp
      show ?thesis
        using le False by (subst build.simps) (simp add: Let_def mid_def [symmetric] b1 b2' self)
    qed
  qed
qed

lemma wfT_zero:
  "nodeBound n idx l r \<Longrightarrow> l \<le> r \<Longrightarrow>
   \<forall>X. int X < 4 * n \<longrightarrow> coverCount t X = Some 0 \<and> coveredLen t X = Some 0 \<Longrightarrow>
   wfT t idx l r"
proof (induction t idx l r rule: wfT.induct)
  case (1 t idx left right)
  note nb = "1.prems"(1) and le = "1.prems"(2) and z = "1.prems"(3)
  have self: "coverCount t idx = Some 0" "coveredLen t idx = Some 0"
    using z nodeBound_lt [OF nb] by auto
  show ?case
  proof (rule wfT_intro)
    show "\<exists>c. coverCount t idx = Some c" using self by simp
    show "ruleAt t idx left right"
    proof (cases "left = right")
      case True
      then show ?thesis by (simp add: ruleAt_def self js_lt_def)
    next
      case False
      with le have lr: "left < right" by simp
      have "coveredLen t (2 * idx) = Some 0" "coveredLen t (2 * idx + 1) = Some 0"
        using z nodeBound_lt [OF nodeBound_left [OF nb lr]]
          nodeBound_lt [OF nodeBound_right [OF nb lr]] by auto
      then show ?thesis using False by (simp add: ruleAt_def self js_lt_def js_add_def)
    qed
    assume lr: "left < right"
    have "wfT t (2 * idx) left ((left + right) div 2)"
      by (rule "1.IH"(1) [OF lr nodeBound_left [OF nb lr] _ z]) (use lr in simp)
    moreover have "wfT t (2 * idx + 1) ((left + right) div 2 + 1) right"
      by (rule "1.IH"(2) [OF lr nodeBound_right [OF nb lr] _ z]) (use lr in simp)
    ultimately show "wfT t (2 * idx) left ((left + right) div 2) \<and>
        wfT t (2 * idx + 1) ((left + right) div 2 + 1) right" ..
  qed
qed

lemma newSegmentTree_eq:
  assumes "cs \<noteq> []"
  shows "newSegmentTree cs = Some (initTree cs)"
proof -
  define n where "n = int (length cs) - 1"
  from assms have n0: "0 \<le> n" by (cases cs) (simp_all add: n_def)
  have "build 1 0 (n - 1) (initTree cs) = initTree cs"
  proof (cases "n = 0")
    case True
    then show ?thesis by (subst build.simps) simp
  next
    case False
    with n0 have "1 \<le> n" by simp
    from build_noop [OF nodeBound_root [OF this]] show ?thesis
      by (simp add: initTree_def n_def)
  qed
  with n0 show ?thesis by (simp add: newSegmentTree_def initTree_def n_def Let_def)
qed

lemma treeInv_init:
  assumes "2 \<le> length cs"
  shows "treeInv cs (initTree cs)"
proof -
  define n where "n = int (length cs) - 1"
  from assms have n1: "1 \<le> n" by (simp add: n_def)
  have "wfT (initTree cs) 1 0 (n - 1)"
    by (rule wfT_zero [OF nodeBound_root [OF n1]]) (use n1 in \<open>auto simp: initTree_def n_def\<close>)
  moreover have "n - 1 = int (length cs) - 2" by (simp add: n_def)
  ultimately show ?thesis by (simp add: treeInv_def initTree_def)
qed

section \<open>The tree during the sweep\<close>

lemma update_treeInv:
  assumes "treeInv cs t"
  shows "treeInv cs (update a b d t)"
proof (cases "a > b")
  case True
  with assms show ?thesis by (simp add: update_def)
next
  case False
  from assms have n: "tree_n t - 1 = int (length cs) - 2" and wf: "wfT t 1 0 (int (length cs) - 2)"
    and co: "coords t = cs" and tn: "tree_n t = int (length cs) - 1"
    by (simp_all add: treeInv_def)
  have u: "update a b d t = updateRange 1 0 (int (length cs) - 2) a (b - 1) d t"
    using False by (simp add: update_def n)
  have "wfT (update a b d t) 1 0 (int (length cs) - 2)"
    unfolding u by (rule updateRange_wfT [OF _ wf]) simp
  moreover have "coords (update a b d t) = cs" "tree_n (update a b d t) = int (length cs) - 1"
    unfolding u using updateRange_frame [of 1 0 "int (length cs) - 2" a "b - 1" d t 0] co tn
    by simp_all
  ultimately show ?thesis by (simp add: treeInv_def)
qed

lemma update_count:
  assumes "treeInv cs t"
  shows "coverCount (update a b d t) X =
     (if a \<le> b \<and> inDecomp 1 0 (int (length cs) - 2) a (b - 1) X
      then js_add (coverCount t X) (Some d) else coverCount t X)"
proof (cases "a > b")
  case True
  then show ?thesis by (simp add: update_def)
next
  case False
  from assms have n: "tree_n t - 1 = int (length cs) - 2" by (simp add: treeInv_def)
  have u: "update a b d t = updateRange 1 0 (int (length cs) - 2) a (b - 1) d t"
    using False by (simp add: update_def n)
  show ?thesis unfolding u using False by (simp add: updateRange_count)
qed

lemma applyEvents_append:
  "applyEvents li (ps @ es) t =
     (case applyEvents li ps t of None \<Rightarrow> None | Some t' \<Rightarrow> applyEvents li es t')"
  by (induction ps arbitrary: t) (auto split: option.splits)

lemma cntFun_Nil: "cntFun li n [] X = 0"
  by (simp add: cntFun_def)

lemma cntFun_Cons: "cntFun li n (e # es) X = evDelta li n e X + cntFun li n es X"
  by (simp add: cntFun_def)

lemma cntFun_append: "cntFun li n (ps @ es) X = cntFun li n ps X + cntFun li n es X"
  by (simp add: cntFun_def)

lemma cntFun_mset:
  assumes "mset ps = mset ps'"
  shows "cntFun li n ps X = cntFun li n ps' X"
proof -
  have "cntFun li n qs X = sum_mset (image_mset (\<lambda>e. evDelta li n e X) (mset qs))" for qs
    unfolding cntFun_def by (metis mset_map sum_mset_sum_list)
  with assms show ?thesis by simp
qed

lemma js_add_cell: "js_add (cell cs X v) (Some d) = cell cs X (v + d)"
  by (simp add: cell_def js_add_def)

lemma applyEvents_inv:
  assumes "\<forall>e\<in>set es. etype e \<noteq> 0 \<longrightarrow>
             (\<exists>a. li (e_lMin e) = Some a) \<and> (\<exists>b. li (e_lMax e) = Some b)"
    and "treeInv cs t"
    and "\<forall>X. coverCount t X = cell cs X (c0 X)"
  shows "\<exists>t'. applyEvents li es t = Some t' \<and> treeInv cs t' \<and>
           (\<forall>X. coverCount t' X = cell cs X (c0 X + cntFun li (int (length cs) - 1) es X))"
  using assms
proof (induction es arbitrary: t c0)
  case Nil
  then show ?case by (simp add: cntFun_Nil)
next
  case (Cons e es)
  note inv = Cons.prems(2) and cnt = Cons.prems(3)
  from Cons.prems(1) have lk: "\<forall>e\<in>set es. etype e \<noteq> 0 \<longrightarrow>
             (\<exists>a. li (e_lMin e) = Some a) \<and> (\<exists>b. li (e_lMax e) = Some b)" by simp
  show ?case
  proof (cases "etype e = 0")
    case True
    then have d0: "evDelta li (int (length cs) - 1) e X = 0" for X by (simp add: evDelta_def)
    from Cons.IH [OF lk inv cnt] True show ?thesis by (simp add: cntFun_Cons d0)
  next
    case False
    with Cons.prems(1) obtain a b where ab: "li (e_lMin e) = Some a" "li (e_lMax e) = Some b"
      by auto
    define d :: int where "d = (if etype e > 0 then 1 else -1)"
    define t1 where "t1 = update (int a) (int b) d t"
    have inv1: "treeInv cs t1" unfolding t1_def by (rule update_treeInv [OF inv])
    have ev: "evDelta li (int (length cs) - 1) e X =
        (if int a \<le> int b \<and> inDecomp 1 0 (int (length cs) - 2) (int a) (int b - 1) X
         then d else 0)" for X
      using False ab by (simp add: evDelta_def touches_def touchesRange_def d_def)
    have cnt1: "\<forall>X. coverCount t1 X = cell cs X (c0 X + evDelta li (int (length cs) - 1) e X)"
      unfolding t1_def update_count [OF inv] ev using cnt by (simp add: js_add_cell)
    from Cons.IH [OF lk inv1 cnt1]
    obtain t' where "applyEvents li es t1 = Some t'" "treeInv cs t'"
      "\<forall>X. coverCount t' X =
        cell cs X (c0 X + evDelta li (int (length cs) - 1) e X +
                    cntFun li (int (length cs) - 1) es X)"
      by blast
    then show ?thesis
      using False ab by (simp add: cntFun_Cons t1_def d_def add.assoc)
  qed
qed

lemma treeInv_covered:
  assumes "treeInv cs t" "2 \<le> length cs"
    and "\<forall>X. coverCount t X = cell cs X (cnt X)"
  shows "getCoveredLength t = Some (coveredBy cs cnt)"
proof -
  define n where "n = int (length cs) - 1"
  define m where "m = int (length cs) - 2"
  from assms(2) have n1: "1 \<le> n" and nm: "n - 1 = m" by (simp_all add: n_def m_def)
  from assms(1) have co: "coords t = cs" and wf: "wfT t 1 0 m"
    by (simp_all add: treeInv_def m_def)
  have pp: "posPath t 1 0 m i \<longleftrightarrow> (\<exists>X. onPath 1 0 m i X \<and> 0 < cnt X)" for i
  proof -
    have "js_lt (Some 0) (coverCount t X) \<longleftrightarrow> 0 < cnt X" if "onPath 1 0 m i X" for X
    proof -
      from onPath_bound [OF nodeBound_root [OF n1]] that have "int X < 4 * n"
        unfolding nm by blast
      with assms(3) show ?thesis by (simp add: js_lt_def n_def cell_def)
    qed
    then show ?thesis unfolding posPath_def by blast
  qed
  have cl: "coveredLen t 1 =
      Some (\<Sum>i\<in>{0..m}. if posPath t 1 0 m i then width (coords t) i else 0)"
    by (rule wfT_coveredLen [OF wf]) (use n1 co in \<open>simp_all add: n_def m_def\<close>)
  have sum_eq: "(\<Sum>i\<in>{0..m}. if posPath t 1 0 m i then width (coords t) i else 0) =
      (\<Sum>i\<in>{0..m}. if (\<exists>X. onPath 1 0 m i X \<and> 0 < cnt X) then width cs i else 0)"
    unfolding pp co ..
  show ?thesis
    unfolding getCoveredLength_def coveredBy_def m_def [symmetric] cl sum_eq ..
qed

section \<open>The sweep in terms of the processed events\<close>

lemma initTree_count: "coverCount (initTree cs) X = cell cs X 0"
  by (simp add: initTree_def cell_def)

lemma applyEvents_state:
  assumes "\<forall>e\<in>set ps. etype e \<noteq> 0 \<longrightarrow>
             (\<exists>a. li (e_lMin e) = Some a) \<and> (\<exists>b. li (e_lMax e) = Some b)"
    and "2 \<le> length cs"
  shows "\<exists>t. applyEvents li ps (initTree cs) = Some t \<and> treeInv cs t \<and>
           getCoveredLength t = Some (coveredBy cs (cntFun li (int (length cs) - 1) ps))"
proof -
  from applyEvents_inv [OF assms(1) treeInv_init [OF assms(2)], of "\<lambda>_. 0"]
  obtain t where t: "applyEvents li ps (initTree cs) = Some t" "treeInv cs t"
    "\<forall>X. coverCount t X = cell cs X (cntFun li (int (length cs) - 1) ps X)"
    by (auto simp: initTree_count)
  from treeInv_covered [OF t(2) assms(2) t(3)] t(1,2) show ?thesis by simp
qed

lemma all_less_Suc_shift: "(\<forall>k<Suc n. Q k) \<longleftrightarrow> Q 0 \<and> (\<forall>k<n. Q (Suc k))"
proof
  assume h: "\<forall>k<Suc n. Q k"
  then show "Q 0 \<and> (\<forall>k<n. Q (Suc k))" by auto
next
  assume h: "Q 0 \<and> (\<forall>k<n. Q (Suc k))"
  show "\<forall>k<Suc n. Q k"
  proof (intro allI impI)
    fix k assume "k < Suc n"
    with h show "Q k" by (cases k) auto
  qed
qed

lemma prevDistAt_simps:
  "prevDistAt prev es 0 = prev"
  "prevDistAt prev (e # es) (Suc k) = prevDistAt (dist e) es k"
  by (cases k; simp add: prevDistAt_def)+

lemma sweep_char:
  assumes "\<forall>e\<in>set (ps @ es). etype e \<noteq> 0 \<longrightarrow>
             (\<exists>a. li (e_lMin e) = Some a) \<and> (\<exists>b. li (e_lMax e) = Some b)"
    and "2 \<le> length cs"
    and "applyEvents li ps (initTree cs) = Some t"
  shows "sweep d0 d1 tot li es prev t =
     Some (\<forall>k<length es.
        prevDistAt prev es k < dist (es ! k) \<and>
        max (prevDistAt prev es k) d0 < min (dist (es ! k)) d1 \<longrightarrow>
        \<not> coveredBy cs (cntFun li (int (length cs) - 1) (ps @ take k es)) < tot)"
  using assms(1,3)
proof (induction es arbitrary: ps prev t)
  case Nil
  then show ?case by simp
next
  case (Cons e es)
  note lk = Cons.prems(1) and t = Cons.prems(2)
  from lk have lkps: "\<forall>e\<in>set ps. etype e \<noteq> 0 \<longrightarrow>
             (\<exists>a. li (e_lMin e) = Some a) \<and> (\<exists>b. li (e_lMax e) = Some b)" by simp
  from applyEvents_state [OF lkps assms(2)] t
  have cov: "getCoveredLength t = Some (coveredBy cs (cntFun li (int (length cs) - 1) ps))"
    by simp
  from lk have lk': "\<forall>x\<in>set ((ps @ [e]) @ es). etype x \<noteq> 0 \<longrightarrow>
             (\<exists>a. li (e_lMin x) = Some a) \<and> (\<exists>b. li (e_lMax x) = Some b)" by simp
  define Q where "Q = (\<lambda>prev es ps k.
        prevDistAt prev es k < dist (es ! k) \<and>
        max (prevDistAt prev es k) d0 < min (dist (es ! k)) d1 \<longrightarrow>
        \<not> coveredBy cs (cntFun li (int (length cs) - 1) (ps @ take k es)) < tot)"
  have Q0: "Q prev (e # es) ps 0 \<longleftrightarrow>
      \<not> (prev < dist e \<and> max prev d0 < min (dist e) d1 \<and>
         js_lt (getCoveredLength t) (Some tot))"
    by (auto simp: Q_def prevDistAt_simps cov js_lt_def)
  have QS: "Q prev (e # es) ps (Suc k) = Q (dist e) es (ps @ [e]) k" for k
    by (simp add: Q_def prevDistAt_simps)
  have goal: "(\<forall>k<length (e # es). Q prev (e # es) ps k) \<longleftrightarrow>
      Q prev (e # es) ps 0 \<and> (\<forall>k<length es. Q (dist e) es (ps @ [e]) k)"
    by (simp add: all_less_Suc_shift QS)
  show ?case
  proof (cases "etype e = 0")
    case True
    have "applyEvents li (ps @ [e]) (initTree cs) = Some t"
      using t True by (simp add: applyEvents_append)
    from Cons.IH [OF lk' this, of "dist e"]
    have "sweep d0 d1 tot li es (dist e) t = Some (\<forall>k<length es. Q (dist e) es (ps @ [e]) k)"
      by (simp add: Q_def)
    then have "sweep d0 d1 tot li (e # es) prev t = Some (\<forall>k<length (e # es). Q prev (e # es) ps k)"
      unfolding goal Q0 using True by auto
    then show ?thesis by (simp add: Q_def)
  next
    case False
    with lk obtain a b where ab: "li (e_lMin e) = Some a" "li (e_lMax e) = Some b" by auto
    define t1 where "t1 = update (int a) (int b) (if etype e > 0 then 1 else -1) t"
    have "applyEvents li (ps @ [e]) (initTree cs) = Some t1"
      using t False ab by (simp add: applyEvents_append t1_def)
    from Cons.IH [OF lk' this, of "dist e"]
    have "sweep d0 d1 tot li es (dist e) t1 = Some (\<forall>k<length es. Q (dist e) es (ps @ [e]) k)"
      by (simp add: Q_def)
    then have "sweep d0 d1 tot li (e # es) prev t = Some (\<forall>k<length (e # es). Q prev (e # es) ps k)"
      unfolding goal Q0 using False ab by (auto simp: t1_def)
    then show ?thesis by (simp add: Q_def)
  qed
qed

text \<open>
  When the loop gets past the events \<open>ps\<close> without returning, the tree it holds is the one
  \<open>applyEvents\<close> computes, and it goes on from there.
\<close>

lemma sweep_reaches:
  assumes "sweep d0 d1 tot li ps prev t = Some True"
  shows "\<exists>t'. applyEvents li ps t = Some t' \<and>
           sweep d0 d1 tot li (ps @ es) prev t =
           sweep d0 d1 tot li es (last (prev # map dist ps)) t'"
  using assms
proof (induction ps arbitrary: prev t)
  case Nil
  then show ?case by simp
next
  case (Cons e ps)
  define chk where "chk \<longleftrightarrow> dist e > prev \<and> min (dist e) d1 > max prev d0 \<and>
      js_lt (getCoveredLength t) (Some tot)"
  define nxt where "nxt = (\<lambda>qs.
      if etype e \<noteq> 0
      then (case li (e_lMin e) of
              None \<Rightarrow> None
            | Some a \<Rightarrow>
               (case li (e_lMax e) of
                  None \<Rightarrow> None
                | Some b \<Rightarrow>
                    sweep d0 d1 tot li qs (dist e)
                      (update (int a) (int b) (if etype e > 0 then 1 else -1) t)))
      else sweep d0 d1 tot li qs (dist e) t)"
  have eq: "sweep d0 d1 tot li (e # qs) prev t = (if chk then Some False else nxt qs)" for qs
    unfolding chk_def nxt_def by (rule sweep.simps(2))
  from Cons.prems have nochk: "\<not> chk" and nx: "nxt ps = Some True"
    unfolding eq by (auto split: if_splits)
  have goal: "sweep d0 d1 tot li ((e # ps) @ es) prev t = nxt (ps @ es)"
    using nochk eq [of "ps @ es"] by simp
  show ?case
  proof (cases "etype e = 0")
    case True
    with nx have "sweep d0 d1 tot li ps (dist e) t = Some True" by (simp add: nxt_def)
    from Cons.IH [OF this] True show ?thesis unfolding goal by (simp add: nxt_def)
  next
    case False
    with nx obtain a b where ab: "li (e_lMin e) = Some a" "li (e_lMax e) = Some b"
      by (auto simp: nxt_def split: option.splits)
    with nx False
    have "sweep d0 d1 tot li ps (dist e)
        (update (int a) (int b) (if etype e > 0 then 1 else -1) t) = Some True"
      by (simp add: nxt_def)
    from Cons.IH [OF this] False ab show ?thesis unfolding goal by (simp add: nxt_def)
  qed
qed

lemma sorted_take_filter:
  fixes f :: "'a \<Rightarrow> int"
  assumes "sorted (map f xs)" "0 < k" "k < length xs" "f (xs ! (k - 1)) < f (xs ! k)"
  shows "take k xs = filter (\<lambda>x. f x \<le> f (xs ! (k - 1))) xs"
proof -
  have le: "f (xs ! i) \<le> f (xs ! j)" if "i \<le> j" "j < length xs" for i j
    using sorted_nth_mono [OF assms(1), of i j] that by simp
  have "filter (\<lambda>x. f x \<le> f (xs ! (k - 1))) (take k xs) = take k xs"
  proof (rule filter_True, clarify)
    fix x assume "x \<in> set (take k xs)"
    then obtain i where "i < k" "x = xs ! i" using assms(3)
      by (auto simp: in_set_conv_nth)
    with le [of i "k - 1"] assms(2,3) show "f x \<le> f (xs ! (k - 1))" by simp
  qed
  moreover have "filter (\<lambda>x. f x \<le> f (xs ! (k - 1))) (drop k xs) = []"
  proof (rule filter_False, clarify)
    fix x assume "x \<in> set (drop k xs)" "f x \<le> f (xs ! (k - 1))"
    then obtain i where i: "i < length (drop k xs)" "x = drop k xs ! i"
      and fx: "f x \<le> f (xs ! (k - 1))"
      by (auto simp: in_set_conv_nth)
    from i assms(3) have "k + i < length xs" "x = xs ! (k + i)" by simp_all
    with le [of k "k + i"] assms(4) fx show False by simp
  qed
  moreover have "filter (\<lambda>x. f x \<le> f (xs ! (k - 1))) xs =
      filter (\<lambda>x. f x \<le> f (xs ! (k - 1))) (take k xs) @
      filter (\<lambda>x. f x \<le> f (xs ! (k - 1))) (drop k xs)"
    by (metis append_take_drop_id filter_append)
  ultimately show ?thesis by simp
qed

lemma uniqueLightValues_length:
  assumes "l0 \<noteq> l1"
  shows "2 \<le> length (uniqueLightValues l0 l1 vcs)"
proof -
  have "card {l0, l1} \<le> card (set (uniqueLightValues l0 l1 vcs))"
    by (rule card_mono) (auto simp: set_uniqueLightValues)
  also have "\<dots> = length (uniqueLightValues l0 l1 vcs)"
    by (rule distinct_card [OF distinct_uniqueLightValues])
  finally show ?thesis using assms by simp
qed

lemma coverSweep_char:
  assumes "l0 \<noteq> l1"
  shows "coverSweep d0 d1 l0 l1 vcs = Some (gapsCovered d0 d1 l0 l1 vcs)"
proof -
  define E where "E = buildEvents d0 d1 vcs"
  define S where "S = sort_key dist E"
  define cs where "cs = uniqueLightValues l0 l1 vcs"
  define li where "li = lightIndex cs"
  define n where "n = int (length cs) - 1"
  have cs2: "2 \<le> length cs" unfolding cs_def by (rule uniqueLightValues_length [OF assms])
  then have "cs \<noteq> []" by auto
  then have nt: "newSegmentTree cs = Some (initTree cs)" by (rule newSegmentTree_eq)
  obtain e es where S: "S = e # es"
    using events_nonempty [of d0 d1 vcs] by (cases S) (auto simp: S_def E_def)
  have lk: "\<forall>e\<in>set ([] @ S). etype e \<noteq> 0 \<longrightarrow>
             (\<exists>a. li (e_lMin e) = Some a) \<and> (\<exists>b. li (e_lMax e) = Some b)"
    unfolding S_def E_def li_def cs_def using events_lookup by simp
  have sw: "sweep d0 d1 (l1 - l0) li S (dist e) (initTree cs) =
     Some (\<forall>k<length S.
        prevDistAt (dist e) S k < dist (S ! k) \<and>
        max (prevDistAt (dist e) S k) d0 < min (dist (S ! k)) d1 \<longrightarrow>
        \<not> coveredBy cs (cntFun li n ([] @ take k S)) < l1 - l0)"
    unfolding n_def by (rule sweep_char [OF lk cs2]) simp
  have srt: "sorted (map dist S)" unfolding S_def by simp
  have eq: "(\<forall>k<length S.
        prevDistAt (dist e) S k < dist (S ! k) \<and>
        max (prevDistAt (dist e) S k) d0 < min (dist (S ! k)) d1 \<longrightarrow>
        \<not> coveredBy cs (cntFun li n ([] @ take k S)) < l1 - l0) \<longleftrightarrow>
      (\<forall>k. 0 < k \<and> k < length (map dist S) \<and> map dist S ! (k - 1) < map dist S ! k \<and>
              max (map dist S ! (k - 1)) d0 < min (map dist S ! k) d1 \<longrightarrow>
           \<not> coveredBy cs (cntFun li n (filter (\<lambda>e. dist e \<le> map dist S ! (k - 1)) E)) < l1 - l0)"
    (is "?A \<longleftrightarrow> ?B")
  proof -
    have key: "cntFun li n (take k S) = cntFun li n (filter (\<lambda>e. dist e \<le> dist (S ! (k - 1))) E)"
      if "0 < k" "k < length S" "dist (S ! (k - 1)) < dist (S ! k)" for k
    proof -
      have "take k S = filter (\<lambda>x. dist x \<le> dist (S ! (k - 1))) S"
        by (rule sorted_take_filter [OF srt that])
      moreover have "mset (filter (\<lambda>x. dist x \<le> dist (S ! (k - 1))) S) =
          mset (filter (\<lambda>x. dist x \<le> dist (S ! (k - 1))) E)"
        by (simp add: S_def)
      ultimately show ?thesis using cntFun_mset by (metis ext)
    qed
    have pd: "prevDistAt (dist e) S k = dist (S ! (k - 1))" if "0 < k" for k
      using that by (simp add: prevDistAt_def)
    have pd0: "prevDistAt (dist e) S 0 = dist (S ! 0)" by (simp add: prevDistAt_def S)
    show ?thesis
    proof
      assume A: ?A
      show ?B
      proof (intro allI impI)
        fix k assume k: "0 < k \<and> k < length (map dist S) \<and> map dist S ! (k - 1) < map dist S ! k \<and>
              max (map dist S ! (k - 1)) d0 < min (map dist S ! k) d1"
        then have k0: "0 < k" "k < length S" by simp_all
        then have nm: "map dist S ! k = dist (S ! k)" "map dist S ! (k - 1) = dist (S ! (k - 1))"
          by simp_all
        from k have k': "0 < k" "k < length S" "dist (S ! (k - 1)) < dist (S ! k)"
          "max (dist (S ! (k - 1))) d0 < min (dist (S ! k)) d1" unfolding nm by simp_all
        from A k' have "\<not> coveredBy cs (cntFun li n ([] @ take k S)) < l1 - l0"
          by (simp add: pd)
        with key [OF k'(1-3)]
        show "\<not> coveredBy cs (cntFun li n (filter (\<lambda>e. dist e \<le> map dist S ! (k - 1)) E)) < l1 - l0"
          unfolding nm by simp
      qed
    next
      assume B: ?B
      show ?A
      proof (intro allI impI)
        fix k assume klt: "k < length S"
          and h: "prevDistAt (dist e) S k < dist (S ! k) \<and>
            max (prevDistAt (dist e) S k) d0 < min (dist (S ! k)) d1"
        have "0 < k"
        proof (rule ccontr)
          assume "\<not> 0 < k"
          then have "k = 0" by simp
          with h pd0 show False by simp
        qed
        with h klt have k': "0 < k" "k < length S" "dist (S ! (k - 1)) < dist (S ! k)"
          "max (dist (S ! (k - 1))) d0 < min (dist (S ! k)) d1" by (simp_all add: pd)
        then have nm: "map dist S ! k = dist (S ! k)" "map dist S ! (k - 1) = dist (S ! (k - 1))"
          by simp_all
        from B [rule_format, of k] k'
        have "\<not> coveredBy cs (cntFun li n (filter (\<lambda>e. dist e \<le> map dist S ! (k - 1)) E)) < l1 - l0"
          unfolding nm by simp
        with key [OF k'(1-3)] nm
        show "\<not> coveredBy cs (cntFun li n ([] @ take k S)) < l1 - l0" by simp
      qed
    qed
  qed
  have "coverSweep d0 d1 l0 l1 vcs = sweep d0 d1 (l1 - l0) li S (dist e) (initTree cs)"
    using nt S by (simp add: coverSweep_def Let_def S_def [symmetric] E_def [symmetric]
        cs_def [symmetric] li_def [symmetric])
  also note sw
  also note eq
  finally show ?thesis
    by (simp add: gapsCovered_def Let_def E_def S_def cs_def li_def n_def)
qed

section \<open>The result for a target with a proper light range\<close>

lemma canCoverAll_char:
  assumes "l0 \<noteq> l1"
  shows "canCoverAll d0 d1 l0 l1 cams =
     Some (validCams d0 d1 l0 l1 cams \<noteq> [] \<and>
           gapsCovered d0 d1 l0 l1 (validCams d0 d1 l0 l1 cams))"
proof (cases "validCams d0 d1 l0 l1 cams = []")
  case True
  with assms show ?thesis by (simp add: canCoverAll_def)
next
  case False
  then have "cams \<noteq> []" by (auto simp: validCams_eq)
  with False assms show ?thesis by (simp add: canCoverAll_def coverSweep_char)
qed

section \<open>The order of the rectangles\<close>

lemma mset_concat_map:
  "mset (concat (map g xs)) = (\<Sum>x\<in>#mset xs. mset (g x))"
  by (induction xs) simp_all

lemma buildEvents_mset:
  assumes "mset vcs = mset vcs'"
  shows "mset (buildEvents d0 d1 vcs) = mset (buildEvents d0 d1 vcs')"
  using assms by (simp add: buildEvents_eq mset_concat_map)

lemma map_sort_key: "map f (sort_key f xs) = sort (map f xs)"
  by (rule properties_for_sort [symmetric]) simp_all

lemma sorted_dists_mset:
  assumes "mset E = mset E'"
  shows "map dist (sort_key dist E) = map dist (sort_key dist E')"
proof -
  have "mset (map dist E) = mset (map dist E')" using assms by simp
  then have "sort (map dist E) = sort (map dist E')"
    by (metis properties_for_sort sorted_sort mset_sort)
  then show ?thesis by (simp add: map_sort_key)
qed

lemma uniqueLightValues_set_eq:
  assumes "set vcs = set vcs'"
  shows "uniqueLightValues l0 l1 vcs = uniqueLightValues l0 l1 vcs'"
  by (rule sorted_distinct_set_unique)
    (simp_all add: sorted_uniqueLightValues distinct_uniqueLightValues set_uniqueLightValues assms)

lemma gapsCovered_mset:
  assumes "mset vcs = mset vcs'"
  shows "gapsCovered d0 d1 l0 l1 vcs = gapsCovered d0 d1 l0 l1 vcs'"
proof -
  have E: "mset (buildEvents d0 d1 vcs) = mset (buildEvents d0 d1 vcs')"
    by (rule buildEvents_mset [OF assms])
  have ds: "map dist (sort_key dist (buildEvents d0 d1 vcs)) =
            map dist (sort_key dist (buildEvents d0 d1 vcs'))"
    by (rule sorted_dists_mset [OF E])
  have cs: "uniqueLightValues l0 l1 vcs = uniqueLightValues l0 l1 vcs'"
    by (rule uniqueLightValues_set_eq) (metis assms set_mset_mset)
  have cnt: "cntFun li n (filter P (buildEvents d0 d1 vcs)) =
             cntFun li n (filter P (buildEvents d0 d1 vcs'))" for li n P
  proof
    fix X
    have "mset (filter P (buildEvents d0 d1 vcs)) = mset (filter P (buildEvents d0 d1 vcs'))"
      using E by simp
    then show "cntFun li n (filter P (buildEvents d0 d1 vcs)) X =
               cntFun li n (filter P (buildEvents d0 d1 vcs')) X"
      by (rule cntFun_mset)
  qed
  show ?thesis unfolding gapsCovered_def Let_def ds cs cnt ..
qed

lemma validCams_mset:
  assumes "mset cams = mset cams'"
  shows "mset (validCams d0 d1 l0 l1 cams) = mset (validCams d0 d1 l0 l1 cams')"
  using assms by (simp add: validCams_eq)

text \<open>
  C6. The order of the input rectangles is irrelevant: for every target, the check returns
  the same boolean on two rectangle lists that are permutations of each other.
\<close>

theorem order_irrelevant:
  assumes "mset cameras = mset cameras'"
  shows "canCoverAll d0 d1 l0 l1 cameras = canCoverAll d0 d1 l0 l1 cameras'"
proof (cases "l0 = l1")
  case True
  show ?thesis
  proof (cases "d0 = d1")
    case True
    with \<open>l0 = l1\<close> show ?thesis by (simp add: canCoverAll_def)
  next
    case False
    have "set cameras = set cameras'" by (metis assms set_mset_mset)
    moreover have "canCoverAll d0 d1 l0 l1 cams =
        Some (\<exists>c\<in>set cams. overlapsTarget d0 d1 l0 l1 c)" for cams
      by (rule degenerate_axis_result) (use True False in auto)
    ultimately show ?thesis by simp
  qed
next
  case False
  from validCams_mset [OF assms, of d0 d1 l0 l1]
  have m: "mset (validCams d0 d1 l0 l1 cameras) = mset (validCams d0 d1 l0 l1 cameras')" .
  then have "validCams d0 d1 l0 l1 cameras = [] \<longleftrightarrow> validCams d0 d1 l0 l1 cameras' = []"
    by (metis mset_zero_iff)
  with gapsCovered_mset [OF m, of d0 d1 l0 l1] False show ?thesis
    by (simp add: canCoverAll_char)
qed

theorem order_irrelevant_witness:
  "canCoverAll 0 20 0 10
     [\<lparr>dMin = 10, dMax = 20, lMin = 0, lMax = 10\<rparr>,
      \<lparr>dMin = 0, dMax = 10, lMin = 5, lMax = 10\<rparr>,
      \<lparr>dMin = 0, dMax = 10, lMin = 0, lMax = 5\<rparr>] =
   canCoverAll 0 20 0 10
     [\<lparr>dMin = 0, dMax = 10, lMin = 0, lMax = 5\<rparr>,
      \<lparr>dMin = 0, dMax = 10, lMin = 5, lMax = 10\<rparr>,
      \<lparr>dMin = 10, dMax = 20, lMin = 0, lMax = 10\<rparr>]"
  by (rule order_irrelevant) simp

section \<open>The counts at a gap, for well-formed cameras\<close>

lemma validCams_clamped:
  assumes "d0 \<le> d1" "l0 \<le> l1" "\<forall>c\<in>set cams. wfCam c"
    and "v \<in> set (validCams d0 d1 l0 l1 cams)"
  shows "clamped d0 d1 l0 l1 v"
proof -
  from assms(4) obtain c where c: "c \<in> set cams" "overlapsTarget d0 d1 l0 l1 c"
      "v = clampCam d0 d1 l0 l1 c"
    by (auto simp: validCams_eq)
  from assms(3) c(1) have "wfCam c" by simp
  with c(2,3) assms(1,2) show ?thesis
    by (auto simp: clamped_def clampCam_def overlapsTarget_def wfCam_def)
qed

lemma covers_validCams:
  "covers d0 d1 l0 l1 (validCams d0 d1 l0 l1 cams) = covers d0 d1 l0 l1 cams"
proof -
  have "(\<exists>c\<in>set (validCams d0 d1 l0 l1 cams).
            of_int (dMin c) \<le> x \<and> x \<le> of_int (dMax c) \<and>
            of_int (lMin c) \<le> y \<and> y \<le> of_int (lMax c)) \<longleftrightarrow>
        (\<exists>c\<in>set cams. of_int (dMin c) \<le> x \<and> x \<le> of_int (dMax c) \<and>
            of_int (lMin c) \<le> y \<and> y \<le> of_int (lMax c))"
    if t: "of_int d0 \<le> x" "x \<le> of_int d1" "of_int l0 \<le> y" "y \<le> of_int l1"
    for x y :: real
  proof
    assume "\<exists>c\<in>set (validCams d0 d1 l0 l1 cams).
            of_int (dMin c) \<le> x \<and> x \<le> of_int (dMax c) \<and>
            of_int (lMin c) \<le> y \<and> y \<le> of_int (lMax c)"
    then obtain c where c: "c \<in> set cams"
      and h: "of_int (max d0 (dMin c)) \<le> x" "x \<le> of_int (min d1 (dMax c))"
        "of_int (max l0 (lMin c)) \<le> y" "y \<le> of_int (min l1 (lMax c))"
      by (auto simp: validCams_eq clampCam_def)
    have "of_int (dMin c) \<le> (of_int (max d0 (dMin c)) :: real)"
      "(of_int (min d1 (dMax c)) :: real) \<le> of_int (dMax c)"
      "of_int (lMin c) \<le> (of_int (max l0 (lMin c)) :: real)"
      "(of_int (min l1 (lMax c)) :: real) \<le> of_int (lMax c)"
      by simp_all
    with h have "of_int (dMin c) \<le> x \<and> x \<le> of_int (dMax c) \<and>
            of_int (lMin c) \<le> y \<and> y \<le> of_int (lMax c)" by linarith
    with c show "\<exists>c\<in>set cams. of_int (dMin c) \<le> x \<and> x \<le> of_int (dMax c) \<and>
            of_int (lMin c) \<le> y \<and> y \<le> of_int (lMax c)" by blast
  next
    assume "\<exists>c\<in>set cams. of_int (dMin c) \<le> x \<and> x \<le> of_int (dMax c) \<and>
            of_int (lMin c) \<le> y \<and> y \<le> of_int (lMax c)"
    then obtain c where c: "c \<in> set cams"
      and h: "of_int (dMin c) \<le> x" "x \<le> of_int (dMax c)"
        "of_int (lMin c) \<le> y" "y \<le> of_int (lMax c)" by blast
    from h t have "(of_int d0 :: real) \<le> of_int (dMax c)" "(of_int (dMin c) :: real) \<le> of_int d1"
      "(of_int l0 :: real) \<le> of_int (lMax c)" "(of_int (lMin c) :: real) \<le> of_int l1"
      by linarith+
    then have ov: "overlapsTarget d0 d1 l0 l1 c" by (simp add: overlapsTarget_def)
    with c have "clampCam d0 d1 l0 l1 c \<in> set (validCams d0 d1 l0 l1 cams)"
      by (simp add: validCams_eq)
    moreover have "of_int (dMin (clampCam d0 d1 l0 l1 c)) \<le> x"
      "x \<le> of_int (dMax (clampCam d0 d1 l0 l1 c))"
      "of_int (lMin (clampCam d0 d1 l0 l1 c)) \<le> y"
      "y \<le> of_int (lMax (clampCam d0 d1 l0 l1 c))"
      using h t by (simp_all add: clampCam_def)
    ultimately show "\<exists>c\<in>set (validCams d0 d1 l0 l1 cams).
            of_int (dMin c) \<le> x \<and> x \<le> of_int (dMax c) \<and>
            of_int (lMin c) \<le> y \<and> y \<le> of_int (lMax c)" by blast
  qed
  then show ?thesis unfolding covers_def by blast
qed

lemma cntFun_concat:
  "cntFun li n (concat (map h vcs)) X = (\<Sum>c\<leftarrow>vcs. cntFun li n (h c) X)"
  by (induction vcs) (simp_all add: cntFun_Nil cntFun_append)

lemma touches_remove: "touches li n (removeEvent c) X = touches li n (addEvent c) X"
  by (simp add: touches_def addEvent_def removeEvent_def)

lemma evDelta_events:
  "evDelta li n (boundaryEvent d) X = 0"
  "evDelta li n (addEvent c) X = (if touches li n (addEvent c) X then 1 else 0)"
  "evDelta li n (removeEvent c) X = (if touches li n (addEvent c) X then -1 else 0)"
  by (simp_all add: evDelta_def touches_remove)
    (simp_all add: boundaryEvent_def addEvent_def removeEvent_def)

lemma dist_events:
  "dist (boundaryEvent d) = d" "dist (addEvent c) = dMin c" "dist (removeEvent c) = dMax c"
  by (simp_all add: boundaryEvent_def addEvent_def removeEvent_def)

lemma cntFun_gap:
  assumes "\<forall>c\<in>set vcs. dMin c \<le> dMax c"
  shows "cntFun li n (filter (\<lambda>e. dist e \<le> p) (buildEvents d0 d1 vcs)) X =
     (\<Sum>c\<leftarrow>vcs. if dMin c \<le> p \<and> p < dMax c \<and> touches li n (addEvent c) X then 1 else 0)"
proof -
  have one: "cntFun li n (filter (\<lambda>e. dist e \<le> p) [addEvent c, removeEvent c]) X =
      (if dMin c \<le> p \<and> p < dMax c \<and> touches li n (addEvent c) X then 1 else 0)"
    if "dMin c \<le> dMax c" for c
    using that by (simp add: cntFun_Cons cntFun_Nil evDelta_events dist_events)
  have "filter (\<lambda>e. dist e \<le> p) (buildEvents d0 d1 vcs) =
      filter (\<lambda>e. dist e \<le> p) [boundaryEvent d0, boundaryEvent d1] @
      concat (map (\<lambda>c. filter (\<lambda>e. dist e \<le> p) [addEvent c, removeEvent c]) vcs)"
    by (simp add: buildEvents_eq filter_concat comp_def)
  moreover have "cntFun li n (filter (\<lambda>e. dist e \<le> p) [boundaryEvent d0, boundaryEvent d1]) X = 0"
    by (simp add: cntFun_Cons cntFun_Nil evDelta_events)
  ultimately have "cntFun li n (filter (\<lambda>e. dist e \<le> p) (buildEvents d0 d1 vcs)) X =
      (\<Sum>c\<leftarrow>vcs. cntFun li n (filter (\<lambda>e. dist e \<le> p) [addEvent c, removeEvent c]) X)"
    by (simp add: cntFun_append cntFun_concat)
  also have "\<dots> = (\<Sum>c\<leftarrow>vcs. if dMin c \<le> p \<and> p < dMax c \<and> touches li n (addEvent c) X
                               then 1 else 0)"
    by (rule arg_cong [where f = sum_list], rule map_cong [OF refl]) (use assms one in blast)
  finally show ?thesis .
qed

lemma sum_list_indicator_pos:
  "0 < (\<Sum>c\<leftarrow>xs. if A c then (1::int) else 0) \<longleftrightarrow> (\<exists>c\<in>set xs. A c)"
proof (induction xs)
  case Nil
  show ?case by simp
next
  case (Cons x xs)
  have "0 \<le> (\<Sum>c\<leftarrow>xs. if A c then (1::int) else 0)"
    by (rule sum_list_nonneg) auto
  with Cons show ?case by auto
qed

section \<open>Sorted coordinates\<close>

lemma sorted_distinct_nth_le_iff:
  fixes xs :: "int list"
  assumes "sorted xs" "distinct xs" "i < length xs" "j < length xs"
  shows "xs ! i \<le> xs ! j \<longleftrightarrow> i \<le> j"
proof
  assume le: "xs ! i \<le> xs ! j"
  show "i \<le> j"
  proof (rule ccontr)
    assume "\<not> i \<le> j"
    then have "j < i" by simp
    with sorted_nth_mono [OF assms(1), of j i] assms(3) have "xs ! j \<le> xs ! i" by simp
    with le have "xs ! i = xs ! j" by simp
    with assms(2,3,4) have "i = j" by (simp add: nth_eq_iff_index_eq)
    with \<open>j < i\<close> show False by simp
  qed
next
  assume "i \<le> j"
  with sorted_nth_mono [OF assms(1), of i j] assms(4) show "xs ! i \<le> xs ! j" by simp
qed

lemma sorted_first_last:
  fixes xs :: "int list"
  assumes "sorted xs" "lo \<in> set xs" "hi \<in> set xs" "\<forall>x\<in>set xs. lo \<le> x \<and> x \<le> hi"
  shows "xs ! 0 = lo \<and> xs ! (length xs - 1) = hi"
proof -
  from assms(2) obtain i where i: "i < length xs" "xs ! i = lo" by (auto simp: in_set_conv_nth)
  from assms(3) obtain j where j: "j < length xs" "xs ! j = hi" by (auto simp: in_set_conv_nth)
  have "xs ! 0 \<le> xs ! i" using sorted_nth_mono [OF assms(1), of 0 i] i by simp
  moreover have "xs ! 0 \<in> set xs" using i(1) by (intro nth_mem) auto
  then have "lo \<le> xs ! 0" using assms(4) by blast
  ultimately have a: "xs ! 0 = lo" using i by simp
  have "xs ! j \<le> xs ! (length xs - 1)"
    using sorted_nth_mono [OF assms(1), of j "length xs - 1"] j by simp
  moreover have "xs ! (length xs - 1) \<in> set xs" using j(1) by (intro nth_mem) auto
  then have "xs ! (length xs - 1) \<le> hi" using assms(4) by blast
  ultimately have "xs ! (length xs - 1) = hi" using j by simp
  with a show ?thesis ..
qed

lemma sorted_below:
  fixes xs :: "int list"
  assumes "sorted xs" "v \<in> set xs" "0 < k" "k < length xs" "v < xs ! k"
  shows "v \<le> xs ! (k - 1)"
proof -
  from assms(2) obtain j where j: "j < length xs" "xs ! j = v" by (auto simp: in_set_conv_nth)
  have "j < k"
  proof (rule ccontr)
    assume "\<not> j < k"
    then have "k \<le> j" by simp
    with sorted_nth_mono [OF assms(1), of k j] j assms(5) show False by simp
  qed
  then have "j \<le> k - 1" using assms(3) by simp
  with sorted_nth_mono [OF assms(1), of j "k - 1"] assms(4) j show ?thesis by simp
qed

lemma sorted_above:
  fixes xs :: "int list"
  assumes "sorted xs" "v \<in> set xs" "0 < k" "k < length xs" "xs ! (k - 1) < v"
  shows "xs ! k \<le> v"
proof -
  from assms(2) obtain j where j: "j < length xs" "xs ! j = v" by (auto simp: in_set_conv_nth)
  have "k \<le> j"
  proof (rule ccontr)
    assume "\<not> k \<le> j"
    then have "j \<le> k - 1" by simp
    moreover have "k - 1 < length xs" using assms(4) by simp
    ultimately have "xs ! j \<le> xs ! (k - 1)" by (rule sorted_nth_mono [OF assms(1)])
    with j assms(5) show False by simp
  qed
  with sorted_nth_mono [OF assms(1), of k j] j show ?thesis by simp
qed

section \<open>From counts to covered light intervals\<close>

lemma touchesRange_path:
  assumes "sorted cs" "distinct cs" "lo \<in> set cs" "hi \<in> set cs"
    and "0 \<le> i" "i \<le> int (length cs) - 2"
  shows "(\<exists>X. onPath 1 0 (int (length cs) - 2) i X \<and>
              touchesRange (lightIndex cs) (int (length cs) - 1) lo hi X) \<longleftrightarrow>
         (lo \<le> cs ! nat i \<and> cs ! nat (i + 1) \<le> hi)"
proof -
  define m where "m = int (length cs) - 2"
  note srt = assms(1) and dst = assms(2)
  from lightIndex_in [OF dst] assms(3,4) obtain a b where
    a: "a < length cs" "cs ! a = lo" "lightIndex cs lo = Some a" and
    b: "b < length cs" "cs ! b = hi" "lightIndex cs hi = Some b"
    by blast
  have im: "i \<le> m" using assms(6) by (simp add: m_def)
  have ni: "nat i < length cs" "nat (i + 1) < length cs"
    using assms(5) im by (simp_all add: m_def)
  have t: "touchesRange (lightIndex cs) (int (length cs) - 1) lo hi X \<longleftrightarrow>
      int a \<le> int b \<and> inDecomp 1 0 m (int a) (int b - 1) X" for X
  proof -
    have "int (length cs) - 1 - 1 = m" by (simp add: m_def)
    then show ?thesis by (simp add: touchesRange_def a b)
  qed
  have "(\<exists>X. onPath 1 0 m i X \<and> touchesRange (lightIndex cs) (int (length cs) - 1) lo hi X) \<longleftrightarrow>
        int a \<le> int b \<and> (\<exists>X. onPath 1 0 m i X \<and> inDecomp 1 0 m (int a) (int b - 1) X)"
    unfolding t by blast
  also have "(\<exists>X. onPath 1 0 m i X \<and> inDecomp 1 0 m (int a) (int b - 1) X) \<longleftrightarrow>
        (int a \<le> i \<and> i \<le> int b - 1)"
    by (rule decomp_path) (use assms(5) im in simp_all)
  also have "int a \<le> int b \<and> (int a \<le> i \<and> i \<le> int b - 1) \<longleftrightarrow> a \<le> nat i \<and> nat (i + 1) \<le> b"
    using assms(5) by auto
  also have "\<dots> \<longleftrightarrow> cs ! a \<le> cs ! nat i \<and> cs ! nat (i + 1) \<le> cs ! b"
    using sorted_distinct_nth_le_iff [OF srt dst a(1) ni(1)]
      sorted_distinct_nth_le_iff [OF srt dst ni(2) b(1)] by simp
  finally show ?thesis unfolding m_def [symmetric] a(2) b(2) .
qed

lemma touches_path:
  assumes "c \<in> set vcs" "0 \<le> i" "i \<le> int (length (uniqueLightValues l0 l1 vcs)) - 2"
  shows "(\<exists>X. onPath 1 0 (int (length (uniqueLightValues l0 l1 vcs)) - 2) i X \<and>
              touches (lightIndex (uniqueLightValues l0 l1 vcs))
                (int (length (uniqueLightValues l0 l1 vcs)) - 1) (addEvent c) X) \<longleftrightarrow>
         (lMin c \<le> uniqueLightValues l0 l1 vcs ! nat i \<and>
          uniqueLightValues l0 l1 vcs ! nat (i + 1) \<le> lMax c)"
proof -
  from assms(1) have "lMin c \<in> set (uniqueLightValues l0 l1 vcs)"
      "lMax c \<in> set (uniqueLightValues l0 l1 vcs)"
    by (auto simp: set_uniqueLightValues)
  from touchesRange_path [OF sorted_uniqueLightValues distinct_uniqueLightValues this assms(2,3)]
  show ?thesis by (simp add: touches_def addEvent_def)
qed

lemma partial_sum_less_iff:
  fixes f :: "int \<Rightarrow> int"
  assumes "finite A" "\<forall>i\<in>A. 0 < f i"
  shows "(\<Sum>i\<in>A. if P i then f i else 0) < (\<Sum>i\<in>A. f i) \<longleftrightarrow> (\<exists>i\<in>A. \<not> P i)"
proof -
  have d: "(\<Sum>i\<in>A. f i) - (\<Sum>i\<in>A. if P i then f i else 0) = (\<Sum>i\<in>A. if P i then 0 else f i)"
    unfolding sum_subtractf [symmetric] by (rule sum.cong) auto
  have nn: "\<And>i. i \<in> A \<Longrightarrow> 0 \<le> (if P i then 0 else f i)" using assms(2) by auto
  have "(\<Sum>i\<in>A. if P i then 0 else f i) = 0 \<longleftrightarrow> (\<forall>i\<in>A. (if P i then 0 else f i) = 0)"
    by (rule sum_nonneg_eq_0_iff [OF assms(1) nn])
  also have "\<dots> \<longleftrightarrow> (\<forall>i\<in>A. P i)"
  proof (rule ball_cong [OF refl])
    fix i assume "i \<in> A"
    with assms(2) have "0 < f i" by blast
    then show "((if P i then 0 else f i) = 0) \<longleftrightarrow> P i" by auto
  qed
  finally have z: "(\<Sum>i\<in>A. if P i then 0 else f i) = 0 \<longleftrightarrow> (\<forall>i\<in>A. P i)" .
  have nn0: "0 \<le> (\<Sum>i\<in>A. if P i then 0 else f i)" by (rule sum_nonneg) (use nn in auto)
  have "(\<Sum>i\<in>A. if P i then f i else 0) < (\<Sum>i\<in>A. f i) \<longleftrightarrow>
      0 < (\<Sum>i\<in>A. if P i then 0 else f i)" using d by linarith
  also have "\<dots> \<longleftrightarrow> (\<Sum>i\<in>A. if P i then 0 else f i) \<noteq> 0" using nn0 by linarith
  also have "\<dots> \<longleftrightarrow> (\<exists>i\<in>A. \<not> P i)" using z by blast
  finally show ?thesis .
qed

lemma coveredBy_full:
  assumes "sorted cs" "distinct cs" "2 \<le> length cs" "cs ! 0 = l0" "cs ! (length cs - 1) = l1"
  shows "\<not> coveredBy cs cnt < l1 - l0 \<longleftrightarrow>
         (\<forall>i\<in>{0..int (length cs) - 2}. \<exists>X. onPath 1 0 (int (length cs) - 2) i X \<and> 0 < cnt X)"
proof -
  define m where "m = int (length cs) - 2"
  have m0: "0 \<le> m" using assms(3) by (simp add: m_def)
  have "(\<Sum>i\<in>{0..m}. width cs i) = cs ! nat (m + 1) - cs ! nat 0"
    by (rule width_telescope) (use m0 in simp_all)
  moreover have "nat (m + 1) = length cs - 1" using assms(3) by (simp add: m_def)
  ultimately have tot: "(\<Sum>i\<in>{0..m}. width cs i) = l1 - l0" using assms(4,5) by simp
  have pos: "\<forall>i\<in>{0..m}. 0 < width cs i"
  proof
    fix i assume i: "i \<in> {0..m}"
    then have lt: "nat i < length cs" "nat (i + 1) < length cs"
      unfolding m_def atLeastAtMost_iff by linarith+
    from i have "\<not> nat (i + 1) \<le> nat i" unfolding atLeastAtMost_iff by linarith
    then have "\<not> cs ! nat (i + 1) \<le> cs ! nat i"
      using sorted_distinct_nth_le_iff [OF assms(1,2) lt(2) lt(1)] by blast
    then show "0 < width cs i" by (simp add: width_def)
  qed
  have "coveredBy cs cnt < l1 - l0 \<longleftrightarrow>
      (\<Sum>i\<in>{0..m}. if (\<exists>X. onPath 1 0 m i X \<and> 0 < cnt X) then width cs i else 0) <
      (\<Sum>i\<in>{0..m}. width cs i)"
    by (simp add: coveredBy_def m_def tot [unfolded m_def])
  also have "\<dots> \<longleftrightarrow> (\<exists>i\<in>{0..m}. \<not> (\<exists>X. onPath 1 0 m i X \<and> 0 < cnt X))"
    by (rule partial_sum_less_iff) (use pos in simp_all)
  finally show ?thesis unfolding m_def by blast
qed

lemma events_dists:
  "set (map dist (sort_key dist (buildEvents d0 d1 vcs))) = {d0, d1} \<union> dMin ` set vcs \<union> dMax ` set vcs"
proof -
  have "set (map dist (sort_key dist (buildEvents d0 d1 vcs))) = dist ` set (buildEvents d0 d1 vcs)"
    by simp
  also have "\<dots> = {d0, d1} \<union> dMin ` set vcs \<union> dMax ` set vcs"
    unfolding buildEvents_eq by (auto simp: dist_events image_UN)
  finally show ?thesis .
qed

lemma gapsCovered_light:
  assumes "\<forall>v\<in>set vcs. clamped d0 d1 l0 l1 v" "d0 \<le> d1" "l0 < l1"
  shows "gapsCovered d0 d1 l0 l1 vcs \<longleftrightarrow>
     (\<forall>k. 0 < k \<and> k < length (map dist (sort_key dist (buildEvents d0 d1 vcs))) \<and>
          map dist (sort_key dist (buildEvents d0 d1 vcs)) ! (k - 1) <
          map dist (sort_key dist (buildEvents d0 d1 vcs)) ! k \<longrightarrow>
          lightCovered (uniqueLightValues l0 l1 vcs) vcs
            (map dist (sort_key dist (buildEvents d0 d1 vcs)) ! (k - 1)))"
proof -
  define E where "E = buildEvents d0 d1 vcs"
  define ds where "ds = map dist (sort_key dist E)"
  define cs where "cs = uniqueLightValues l0 l1 vcs"
  define li where "li = lightIndex cs"
  define n where "n = int (length cs) - 1"
  have srt: "sorted cs" and dst: "distinct cs"
    by (simp_all add: cs_def sorted_uniqueLightValues distinct_uniqueLightValues)
  have cs2: "2 \<le> length cs" unfolding cs_def by (rule uniqueLightValues_length) (use assms(3) in simp)
  have wfd: "\<forall>c\<in>set vcs. dMin c \<le> dMax c" using assms(1) by (simp add: clamped_def)
  have "\<forall>x\<in>set cs. l0 \<le> x \<and> x \<le> l1"
    using assms(1,3) by (auto simp: cs_def set_uniqueLightValues clamped_def)
  moreover have "l0 \<in> set cs" "l1 \<in> set cs" by (simp_all add: cs_def set_uniqueLightValues)
  ultimately have ends: "cs ! 0 = l0" "cs ! (length cs - 1) = l1"
    using sorted_first_last [OF srt, of l0 l1] by simp_all
  have inr: "d0 \<le> x \<and> x \<le> d1" if "x \<in> set ds" for x
    using that assms(1,2) unfolding ds_def E_def events_dists by (auto simp: clamped_def)
  have light: "\<not> coveredBy cs (cntFun li n (filter (\<lambda>e. dist e \<le> p) E)) < l1 - l0 \<longleftrightarrow>
      lightCovered cs vcs p" for p
  proof -
    have "(\<exists>X. onPath 1 0 (int (length cs) - 2) i X \<and>
              0 < cntFun li n (filter (\<lambda>e. dist e \<le> p) E) X) \<longleftrightarrow>
          (\<exists>c\<in>set vcs. dMin c \<le> p \<and> p < dMax c \<and>
              lMin c \<le> cs ! nat i \<and> cs ! nat (i + 1) \<le> lMax c)"
      if i: "i \<in> {0..int (length cs) - 2}" for i
    proof -
      have "(\<exists>X. onPath 1 0 (int (length cs) - 2) i X \<and>
              0 < cntFun li n (filter (\<lambda>e. dist e \<le> p) E) X) \<longleftrightarrow>
          (\<exists>X. onPath 1 0 (int (length cs) - 2) i X \<and>
              (\<exists>c\<in>set vcs. dMin c \<le> p \<and> p < dMax c \<and> touches li n (addEvent c) X))"
        unfolding E_def cntFun_gap [OF wfd] sum_list_indicator_pos ..
      also have "\<dots> \<longleftrightarrow> (\<exists>c\<in>set vcs. dMin c \<le> p \<and> p < dMax c \<and>
          (\<exists>X. onPath 1 0 (int (length cs) - 2) i X \<and> touches li n (addEvent c) X))"
        by blast
      also have "\<dots> \<longleftrightarrow> (\<exists>c\<in>set vcs. dMin c \<le> p \<and> p < dMax c \<and>
              lMin c \<le> cs ! nat i \<and> cs ! nat (i + 1) \<le> lMax c)"
      proof (rule bex_cong [OF refl])
        fix c assume c: "c \<in> set vcs"
        from touches_path [OF c, of i l0 l1] i
        have "(\<exists>X. onPath 1 0 (int (length cs) - 2) i X \<and> touches li n (addEvent c) X) \<longleftrightarrow>
            (lMin c \<le> cs ! nat i \<and> cs ! nat (i + 1) \<le> lMax c)"
          by (simp add: cs_def li_def n_def)
        then show "(dMin c \<le> p \<and> p < dMax c \<and>
            (\<exists>X. onPath 1 0 (int (length cs) - 2) i X \<and> touches li n (addEvent c) X)) \<longleftrightarrow>
            (dMin c \<le> p \<and> p < dMax c \<and> lMin c \<le> cs ! nat i \<and> cs ! nat (i + 1) \<le> lMax c)"
          by simp
      qed
      finally show ?thesis .
    qed
    then show ?thesis
      unfolding coveredBy_full [OF srt dst cs2 ends] lightCovered_def by simp
  qed
  have "gapsCovered d0 d1 l0 l1 vcs \<longleftrightarrow>
      (\<forall>k. 0 < k \<and> k < length ds \<and> ds ! (k - 1) < ds ! k \<and>
            max (ds ! (k - 1)) d0 < min (ds ! k) d1 \<longrightarrow> lightCovered cs vcs (ds ! (k - 1)))"
    unfolding gapsCovered_def Let_def E_def [symmetric] ds_def [symmetric] cs_def [symmetric]
      li_def [symmetric] n_def [symmetric] light ..
  also have "\<dots> \<longleftrightarrow> (\<forall>k. 0 < k \<and> k < length ds \<and> ds ! (k - 1) < ds ! k \<longrightarrow>
      lightCovered cs vcs (ds ! (k - 1)))"
  proof (rule all_cong1, rule imp_cong [OF _ refl])
    fix k
    show "(0 < k \<and> k < length ds \<and> ds ! (k - 1) < ds ! k \<and>
            max (ds ! (k - 1)) d0 < min (ds ! k) d1) \<longleftrightarrow>
          (0 < k \<and> k < length ds \<and> ds ! (k - 1) < ds ! k)"
    proof (cases "0 < k \<and> k < length ds")
      case True
      then have "k < length ds" "k - 1 < length ds" by auto
      then have "ds ! k \<in> set ds" "ds ! (k - 1) \<in> set ds" by (simp_all only: nth_mem)
      from inr [OF this(1)] inr [OF this(2)] show ?thesis by auto
    next
      case False
      then show ?thesis by auto
    qed
  qed
  finally show ?thesis unfolding ds_def E_def cs_def .
qed

section \<open>From covered gaps to covered points\<close>

lemma locate_between:
  fixes xs :: "int list" and x :: real
  assumes "sorted xs" "xs \<noteq> []" "xs ! 0 < xs ! (length xs - 1)"
    and "of_int (xs ! 0) \<le> x" "x \<le> of_int (xs ! (length xs - 1))"
  shows "\<exists>k. 0 < k \<and> k < length xs \<and> xs ! (k - 1) < xs ! k \<and>
             of_int (xs ! (k - 1)) \<le> x \<and> x \<le> of_int (xs ! k)"
proof -
  define Q where "Q = (\<lambda>k. k < length xs \<and> xs ! 0 < xs ! k \<and> x \<le> of_int (xs ! k))"
  define k where "k = (LEAST k. Q k)"
  have "Q (length xs - 1)" using assms(2,3,5) by (simp add: Q_def)
  then have Qk: "Q k" unfolding k_def by (rule LeastI)
  have least: "\<not> Q j" if "j < k" for j using that not_less_Least unfolding k_def by blast
  from Qk have k0: "0 < k" by (cases k) (simp_all add: Q_def)
  from Qk have kl: "k < length xs" and gt: "xs ! 0 < xs ! k" and xk: "x \<le> of_int (xs ! k)"
    by (simp_all add: Q_def)
  have km: "k - 1 < length xs" "k - 1 < k" using k0 kl by simp_all
  have ge: "xs ! 0 \<le> xs ! (k - 1)" using sorted_nth_mono [OF assms(1), of 0 "k - 1"] km by simp
  from least [OF km(2)] km(1)
  have "\<not> (xs ! 0 < xs ! (k - 1) \<and> x \<le> of_int (xs ! (k - 1)))" by (simp add: Q_def)
  then have "xs ! (k - 1) < xs ! k \<and> of_int (xs ! (k - 1)) \<le> x"
  proof (cases "xs ! 0 < xs ! (k - 1)")
    case True
    with \<open>\<not> (xs ! 0 < xs ! (k - 1) \<and> x \<le> of_int (xs ! (k - 1)))\<close>
    have lt: "of_int (xs ! (k - 1)) < x" by simp
    with xk have "(of_int (xs ! (k - 1)) :: real) < of_int (xs ! k)" by linarith
    then have "xs ! (k - 1) < xs ! k" by simp
    with lt show ?thesis by simp
  next
    case False
    with ge have "xs ! (k - 1) = xs ! 0" by simp
    with gt assms(4) show ?thesis by simp
  qed
  with k0 kl xk show ?thesis by blast
qed

lemma covers_iff_gaps:
  assumes "\<forall>v\<in>set vcs. clamped d0 d1 l0 l1 v" "d0 < d1" "l0 < l1"
  shows "covers d0 d1 l0 l1 vcs \<longleftrightarrow>
     (\<forall>k. 0 < k \<and> k < length (map dist (sort_key dist (buildEvents d0 d1 vcs))) \<and>
          map dist (sort_key dist (buildEvents d0 d1 vcs)) ! (k - 1) <
          map dist (sort_key dist (buildEvents d0 d1 vcs)) ! k \<longrightarrow>
          lightCovered (uniqueLightValues l0 l1 vcs) vcs
            (map dist (sort_key dist (buildEvents d0 d1 vcs)) ! (k - 1)))"
proof -
  define ds where "ds = map dist (sort_key dist (buildEvents d0 d1 vcs))"
  define cs where "cs = uniqueLightValues l0 l1 vcs"
  have sds: "sorted ds" by (simp add: ds_def)
  have set_ds: "set ds = {d0, d1} \<union> dMin ` set vcs \<union> dMax ` set vcs"
    unfolding ds_def by (rule events_dists)
  have scs: "sorted cs" and dcs: "distinct cs"
    by (simp_all add: cs_def sorted_uniqueLightValues distinct_uniqueLightValues)
  have set_cs: "set cs = {l0, l1} \<union> lMin ` set vcs \<union> lMax ` set vcs"
    unfolding cs_def by (rule set_uniqueLightValues)
  have ds_in: "\<forall>x\<in>set ds. d0 \<le> x \<and> x \<le> d1"
    using assms(1,2) unfolding set_ds by (auto simp: clamped_def)
  have cs_in: "\<forall>x\<in>set cs. l0 \<le> x \<and> x \<le> l1"
    using assms(1,3) unfolding set_cs by (auto simp: clamped_def)
  have ds_ends: "ds ! 0 = d0" "ds ! (length ds - 1) = d1"
    using sorted_first_last [OF sds _ _ ds_in] by (simp_all add: set_ds)
  have cs_ends: "cs ! 0 = l0" "cs ! (length cs - 1) = l1"
    using sorted_first_last [OF scs _ _ cs_in] by (simp_all add: set_cs)
  have ds_ne: "ds \<noteq> []" using set_ds by auto
  have cs_ne: "cs \<noteq> []" using set_cs by auto
  have "covers d0 d1 l0 l1 vcs \<longleftrightarrow>
     (\<forall>k. 0 < k \<and> k < length ds \<and> ds ! (k - 1) < ds ! k \<longrightarrow> lightCovered cs vcs (ds ! (k - 1)))"
    (is "?C \<longleftrightarrow> ?G")
  proof
    assume G: ?G
    show ?C unfolding covers_def
    proof (intro allI impI)
      fix x y :: real
      assume t: "of_int d0 \<le> x \<and> x \<le> of_int d1 \<and> of_int l0 \<le> y \<and> y \<le> of_int l1"
      from locate_between [OF sds ds_ne, of x] t assms(2) ds_ends
      obtain k where k: "0 < k" "k < length ds" "ds ! (k - 1) < ds ! k"
        "of_int (ds ! (k - 1)) \<le> x" "x \<le> of_int (ds ! k)" by auto
      from locate_between [OF scs cs_ne, of y] t assms(3) cs_ends
      obtain j where j: "0 < j" "j < length cs" "cs ! (j - 1) < cs ! j"
        "of_int (cs ! (j - 1)) \<le> y" "y \<le> of_int (cs ! j)" by auto
      from G k have "lightCovered cs vcs (ds ! (k - 1))" by blast
      moreover have "int j - 1 \<in> {0..int (length cs) - 2}" using j by auto
      ultimately obtain c where c: "c \<in> set vcs" "dMin c \<le> ds ! (k - 1)" "ds ! (k - 1) < dMax c"
        "lMin c \<le> cs ! nat (int j - 1)" "cs ! nat (int j - 1 + 1) \<le> lMax c"
        unfolding lightCovered_def by blast
      have nj: "nat (int j - 1) = j - 1" "nat (int j - 1 + 1) = j" using j(1) by simp_all
      have "dMax c \<in> set ds" using c(1) by (simp add: set_ds)
      from sorted_above [OF sds this k(1,2) c(3)] have up: "ds ! k \<le> dMax c" .
      have "(of_int (dMin c) :: real) \<le> of_int (ds ! (k - 1))" using c(2) by simp
      moreover have "(of_int (ds ! k) :: real) \<le> of_int (dMax c)" using up by simp
      moreover have "(of_int (lMin c) :: real) \<le> of_int (cs ! (j - 1))" using c(4) nj by simp
      moreover have "(of_int (cs ! j) :: real) \<le> of_int (lMax c)" using c(5) nj by simp
      ultimately have "of_int (dMin c) \<le> x \<and> x \<le> of_int (dMax c) \<and>
          of_int (lMin c) \<le> y \<and> y \<le> of_int (lMax c)"
        using k(4,5) j(4,5) by linarith
      with c(1) show "\<exists>c\<in>set vcs. of_int (dMin c) \<le> x \<and> x \<le> of_int (dMax c) \<and>
          of_int (lMin c) \<le> y \<and> y \<le> of_int (lMax c)" by blast
    qed
  next
    assume C: ?C
    show ?G
    proof (intro allI impI)
      fix k assume "0 < k \<and> k < length ds \<and> ds ! (k - 1) < ds ! k"
      then have k: "0 < k" "k < length ds" "ds ! (k - 1) < ds ! k" by simp_all
      then have km: "k - 1 < length ds" by simp
      have dk: "d0 \<le> ds ! (k - 1)" "ds ! k \<le> d1"
        using ds_in nth_mem [OF k(2)] nth_mem [OF km] by blast+
      show "lightCovered cs vcs (ds ! (k - 1))" unfolding lightCovered_def
      proof
        fix i assume "i \<in> {0..int (length cs) - 2}"
        then have i: "0 \<le> i" "i \<le> int (length cs) - 2" by simp_all
        define a where "a = nat i"
        define b where "b = nat (i + 1)"
        have ab: "a < length cs" "b < length cs" "0 < b" "b - 1 = a"
          using i by (simp_all add: a_def b_def nat_add_distrib)
        have lt: "cs ! a < cs ! b"
          using sorted_distinct_nth_le_iff [OF scs dcs ab(2) ab(1)] ab(3,4) by auto
        have ck: "l0 \<le> cs ! a" "cs ! b \<le> l1"
          using cs_in nth_mem [OF ab(1)] nth_mem [OF ab(2)] by blast+
        define x :: real where "x = (of_int (ds ! (k - 1)) + of_int (ds ! k)) / 2"
        define y :: real where "y = (of_int (cs ! a) + of_int (cs ! b)) / 2"
        have xb: "of_int (ds ! (k - 1)) < x" "x < of_int (ds ! k)"
          using k(3) by (simp_all add: x_def)
        have yb: "of_int (cs ! a) < y" "y < of_int (cs ! b)"
          using lt by (simp_all add: y_def)
        have "(of_int d0 :: real) \<le> of_int (ds ! (k - 1))" "(of_int (ds ! k) :: real) \<le> of_int d1"
          "(of_int l0 :: real) \<le> of_int (cs ! a)" "(of_int (cs ! b) :: real) \<le> of_int l1"
          using dk ck by simp_all
        with xb yb have "of_int d0 \<le> x \<and> x \<le> of_int d1 \<and> of_int l0 \<le> y \<and> y \<le> of_int l1"
          by linarith
        with C obtain c where c: "c \<in> set vcs" "of_int (dMin c) \<le> x" "x \<le> of_int (dMax c)"
          "of_int (lMin c) \<le> y" "y \<le> of_int (lMax c)"
          unfolding covers_def by blast
        have mem: "dMin c \<in> set ds" "lMin c \<in> set cs" "lMax c \<in> set cs"
          using c(1) by (simp_all add: set_ds set_cs)
        from c(2) xb(2) have "(of_int (dMin c) :: real) < of_int (ds ! k)" by linarith
        then have "dMin c < ds ! k" by simp
        from sorted_below [OF sds mem(1) k(1,2) this] have r1: "dMin c \<le> ds ! (k - 1)" .
        from c(3) xb(1) have "(of_int (ds ! (k - 1)) :: real) < of_int (dMax c)" by linarith
        then have r2: "ds ! (k - 1) < dMax c" by simp
        from c(4) yb(2) have "(of_int (lMin c) :: real) < of_int (cs ! b)" by linarith
        then have "lMin c < cs ! b" by simp
        from sorted_below [OF scs mem(2) ab(3,2) this] have r3: "lMin c \<le> cs ! a"
          unfolding ab(4) .
        from c(5) yb(1) have "(of_int (cs ! a) :: real) < of_int (lMax c)" by linarith
        then have "cs ! (b - 1) < lMax c" unfolding ab(4) by simp
        from sorted_above [OF scs mem(3) ab(3,2) this] have r4: "cs ! b \<le> lMax c" .
        from c(1) r1 r2 r3 r4
        show "\<exists>c\<in>set vcs. dMin c \<le> ds ! (k - 1) \<and> ds ! (k - 1) < dMax c \<and>
            lMin c \<le> cs ! nat i \<and> cs ! nat (i + 1) \<le> lMax c"
          unfolding a_def b_def by blast
      qed
    qed
  qed
  then show ?thesis unfolding ds_def cs_def .
qed

lemma covers_Nil:
  assumes "d0 \<le> d1" "l0 \<le> l1"
  shows "\<not> covers d0 d1 l0 l1 []"
proof
  assume "covers d0 d1 l0 l1 []"
  then have "of_int d0 \<le> (of_int d0 :: real) \<and> (of_int d0 :: real) \<le> of_int d1 \<and>
      of_int l0 \<le> (of_int l0 :: real) \<and> (of_int l0 :: real) \<le> of_int l1 \<longrightarrow> False"
    unfolding covers_def by (metis empty_iff empty_set)
  with assms show False by simp
qed

lemma covers_mono:
  assumes "covers d0 d1 l0 l1 cams" "set cams \<subseteq> set cams'"
  shows "covers d0 d1 l0 l1 cams'"
  using assms unfolding covers_def by blast

lemma canCoverAll_covers:
  assumes "d0 < d1" "l0 < l1" "\<forall>c\<in>set cams. wfCam c"
  shows "canCoverAll d0 d1 l0 l1 cams = Some (covers d0 d1 l0 l1 cams)"
proof -
  define vcs where "vcs = validCams d0 d1 l0 l1 cams"
  have cl: "\<forall>v\<in>set vcs. clamped d0 d1 l0 l1 v"
    unfolding vcs_def using validCams_clamped [of d0 d1 l0 l1 cams] assms by auto
  have ch: "canCoverAll d0 d1 l0 l1 cams = Some (vcs \<noteq> [] \<and> gapsCovered d0 d1 l0 l1 vcs)"
    unfolding vcs_def by (rule canCoverAll_char) (use assms(2) in simp)
  have cv: "covers d0 d1 l0 l1 cams = covers d0 d1 l0 l1 vcs"
    unfolding vcs_def by (rule covers_validCams [symmetric])
  show ?thesis
  proof (cases "vcs = []")
    case True
    with covers_Nil [of d0 d1 l0 l1] assms(1,2) show ?thesis by (simp add: ch cv)
  next
    case False
    have "gapsCovered d0 d1 l0 l1 vcs = covers d0 d1 l0 l1 vcs"
      using gapsCovered_light [OF cl _ assms(2)] covers_iff_gaps [OF cl assms(1,2)] assms(1)
      by simp
    with False show ?thesis by (simp add: ch cv)
  qed
qed

section \<open>Correctness of the coverage check\<close>

text \<open>
  C1, as the code has it. For a well-formed target with a proper distance range and a
  proper light range (\<open>distanceMin < distanceMax\<close>, \<open>lightMin < lightMax\<close>) whose light bounds
  have a magnitude of at most \<open>2 ^ 52\<close>, and every finite list of well-formed rectangles, the
  check returns true if and only if the union of the rectangles, as closed regions, contains
  every point of the closed target rectangle; for a target degenerate on both axes it
  returns true whatever the rectangles are. The bounds are integers and the points of the
  regions are real. The bound on the light bounds keeps the lengths that the source
  computes exact; beyond it the source rounds them, which the model does not follow.
\<close>

theorem coverage_correct:
  assumes "d0 \<le> d1" "l0 \<le> l1" "\<forall>c\<in>set cameras. wfCam c"
  shows "(d0 < d1 \<and> l0 < l1 \<and> inExactRange l0 \<and> inExactRange l1 \<longrightarrow>
            canCoverAll d0 d1 l0 l1 cameras = Some (covers d0 d1 l0 l1 cameras)) \<and>
         (d0 = d1 \<and> l0 = l1 \<longrightarrow> canCoverAll d0 d1 l0 l1 cameras = Some True)"
  using canCoverAll_covers [OF _ _ assms(3), of d0 d1 l0 l1]
  by (simp add: canCoverAll_def)

theorem coverage_correct_witness:
  "covers 0 20 0 10
     [\<lparr>dMin = 0, dMax = 10, lMin = 0, lMax = 5\<rparr>,
      \<lparr>dMin = 0, dMax = 10, lMin = 5, lMax = 10\<rparr>,
      \<lparr>dMin = 10, dMax = 20, lMin = 0, lMax = 10\<rparr>] \<and>
   \<not> covers 0 10 0 10 [\<lparr>dMin = 0, dMax = 10, lMin = 0, lMax = 5\<rparr>] \<and>
   canCoverAll 3 3 7 7 [\<lparr>dMin = 0, dMax = 10, lMin = 0, lMax = 5\<rparr>] = Some True"
proof -
  have a: "canCoverAll 0 20 0 10
     [\<lparr>dMin = 0, dMax = 10, lMin = 0, lMax = 5\<rparr>,
      \<lparr>dMin = 0, dMax = 10, lMin = 5, lMax = 10\<rparr>,
      \<lparr>dMin = 10, dMax = 20, lMin = 0, lMax = 10\<rparr>] = Some True"
    by code_simp
  have b: "canCoverAll 0 10 0 10 [\<lparr>dMin = 0, dMax = 10, lMin = 0, lMax = 5\<rparr>] = Some False"
    by code_simp
  from coverage_correct [of 0 20 0 10
     "[\<lparr>dMin = 0, dMax = 10, lMin = 0, lMax = 5\<rparr>,
      \<lparr>dMin = 0, dMax = 10, lMin = 5, lMax = 10\<rparr>,
      \<lparr>dMin = 10, dMax = 20, lMin = 0, lMax = 10\<rparr>]"]
    coverage_correct [of 0 10 0 10 "[\<lparr>dMin = 0, dMax = 10, lMin = 0, lMax = 5\<rparr>]"]
    coverage_correct [of 3 3 7 7 "[\<lparr>dMin = 0, dMax = 10, lMin = 0, lMax = 5\<rparr>]"]
  show ?thesis unfolding a b by (simp add: wfCam_def inExactRange_def)
qed

text \<open>
  C1 fails as stated on degenerate targets: the point target \<open>(0, 0, 0, 0)\<close> with no
  rectangle is answered true although its point is not covered, and so is the segment
  target \<open>(0, 0, 0, 10)\<close> with a rectangle that reaches light 5 only.
\<close>

theorem coverage_degenerate_counterexample:
  "canCoverAll 0 0 0 0 [] = Some True \<and> \<not> covers 0 0 0 0 [] \<and>
   wfCam \<lparr>dMin = 0, dMax = 10, lMin = 0, lMax = 5\<rparr> \<and>
   canCoverAll 0 0 0 10 [\<lparr>dMin = 0, dMax = 10, lMin = 0, lMax = 5\<rparr>] = Some True \<and>
   \<not> covers 0 0 0 10 [\<lparr>dMin = 0, dMax = 10, lMin = 0, lMax = 5\<rparr>]"
proof -
  have "\<not> covers 0 0 0 10 [\<lparr>dMin = 0, dMax = 10, lMin = 0, lMax = 5\<rparr>]"
  proof
    assume "covers 0 0 0 10 [\<lparr>dMin = 0, dMax = 10, lMin = 0, lMax = 5\<rparr>]"
    from this [unfolded covers_def, rule_format, of 0 7] show False by simp
  qed
  moreover have "canCoverAll 0 0 0 10 [\<lparr>dMin = 0, dMax = 10, lMin = 0, lMax = 5\<rparr>] = Some True"
    by code_simp
  moreover have "canCoverAll 0 0 0 0 [] = Some True" by (simp add: canCoverAll_def)
  moreover have "\<not> covers 0 0 0 0 []" by (rule covers_Nil) simp_all
  ultimately show ?thesis by (simp add: wfCam_def)
qed

section \<open>Monotonicity\<close>

text \<open>
  C5, as the code has it. For every target whose light bounds have a magnitude of at most
  \<open>2 ^ 52\<close>, every list of well-formed rectangles and every additional well-formed rectangle,
  if the check returns true on the list it returns true on the list with the rectangle
  appended. The bound on the light bounds keeps the lengths that the source computes exact;
  beyond it the source rounds them, which the model does not follow.
\<close>

theorem monotone_wellformed:
  assumes "\<forall>c\<in>set cameras. wfCam c" "wfCam r"
    and "canCoverAll d0 d1 l0 l1 cameras = Some True"
    and "inExactRange l0" "inExactRange l1"
  shows "canCoverAll d0 d1 l0 l1 (cameras @ [r]) = Some True"
proof (cases "d0 < d1 \<and> l0 < l1")
  case True
  have wf: "\<forall>c\<in>set (cameras @ [r]). wfCam c" using assms(1,2) by simp
  from assms(3) have "covers d0 d1 l0 l1 cameras"
    using canCoverAll_covers [OF _ _ assms(1), of d0 d1 l0 l1] True by simp
  then have "covers d0 d1 l0 l1 (cameras @ [r])" by (rule covers_mono) auto
  then show ?thesis using canCoverAll_covers [OF _ _ wf, of d0 d1 l0 l1] True by simp
next
  case False
  show ?thesis
  proof (cases "d0 = d1 \<and> l0 = l1")
    case True
    then show ?thesis by (simp add: canCoverAll_def)
  next
    case nd: False
    from False have ax: "d1 \<le> d0 \<or> l1 \<le> l0" by auto
    from degenerate_axis_result [OF ax nd] assms(3) show ?thesis by auto
  qed
qed

theorem monotone_wellformed_witness:
  "canCoverAll 0 20 0 10
     ([\<lparr>dMin = 0, dMax = 10, lMin = 0, lMax = 5\<rparr>,
       \<lparr>dMin = 0, dMax = 10, lMin = 5, lMax = 10\<rparr>,
       \<lparr>dMin = 10, dMax = 20, lMin = 0, lMax = 10\<rparr>] @
      [\<lparr>dMin = 3, dMax = 4, lMin = 1, lMax = 2\<rparr>]) = Some True"
proof (rule monotone_wellformed)
  show "\<forall>c\<in>set [\<lparr>dMin = 0, dMax = 10, lMin = 0, lMax = 5\<rparr>,
       \<lparr>dMin = 0, dMax = 10, lMin = 5, lMax = 10\<rparr>,
       \<lparr>dMin = 10, dMax = 20, lMin = 0, lMax = 10\<rparr>]. wfCam c"
    by (simp add: wfCam_def)
  show "wfCam \<lparr>dMin = 3, dMax = 4, lMin = 1, lMax = 2\<rparr>" by (simp add: wfCam_def)
  show "canCoverAll 0 20 0 10
     [\<lparr>dMin = 0, dMax = 10, lMin = 0, lMax = 5\<rparr>,
       \<lparr>dMin = 0, dMax = 10, lMin = 5, lMax = 10\<rparr>,
       \<lparr>dMin = 10, dMax = 20, lMin = 0, lMax = 10\<rparr>] = Some True"
    by code_simp
  show "inExactRange 0" by (simp add: inExactRange_def)
  show "inExactRange 10" by (simp add: inExactRange_def)
qed

text \<open>
  C5 fails as stated, for a list that holds an inverted rectangle: the list below is
  answered true, and false once the well-formed rectangle \<open>{0, 0, 1, 1}\<close> is appended.
\<close>

theorem monotone_counterexample:
  "wfCam \<lparr>dMin = 0, dMax = 0, lMin = 1, lMax = 1\<rparr> \<and>
   canCoverAll 0 10 0 6
     [\<lparr>dMin = 0, dMax = 10, lMin = 0, lMax = 2\<rparr>,
      \<lparr>dMin = 0, dMax = 10, lMin = 2, lMax = 6\<rparr>,
      \<lparr>dMin = 10, dMax = 0, lMin = 0, lMax = 4\<rparr>] = Some True \<and>
   canCoverAll 0 10 0 6
     ([\<lparr>dMin = 0, dMax = 10, lMin = 0, lMax = 2\<rparr>,
       \<lparr>dMin = 0, dMax = 10, lMin = 2, lMax = 6\<rparr>,
       \<lparr>dMin = 10, dMax = 0, lMin = 0, lMax = 4\<rparr>] @
      [\<lparr>dMin = 0, dMax = 0, lMin = 1, lMax = 1\<rparr>]) = Some False"
proof -
  have "wfCam \<lparr>dMin = 0, dMax = 0, lMin = 1, lMax = 1\<rparr>" by (simp add: wfCam_def)
  moreover have "canCoverAll 0 10 0 6
     [\<lparr>dMin = 0, dMax = 10, lMin = 0, lMax = 2\<rparr>,
      \<lparr>dMin = 0, dMax = 10, lMin = 2, lMax = 6\<rparr>,
      \<lparr>dMin = 10, dMax = 0, lMin = 0, lMax = 4\<rparr>] = Some True" by code_simp
  moreover have "canCoverAll 0 10 0 6
     ([\<lparr>dMin = 0, dMax = 10, lMin = 0, lMax = 2\<rparr>,
       \<lparr>dMin = 0, dMax = 10, lMin = 2, lMax = 6\<rparr>,
       \<lparr>dMin = 10, dMax = 0, lMin = 0, lMax = 4\<rparr>] @
      [\<lparr>dMin = 0, dMax = 0, lMin = 1, lMax = 1\<rparr>]) = Some False" by code_simp
  ultimately show ?thesis by blast
qed

section \<open>Prefixes of the sorted events\<close>

lemma take_insort_mset:
  "\<exists>j. mset (take k (insort_key f x xs)) = mset (take j xs) \<or>
       mset (take k (insort_key f x xs)) = add_mset x (mset (take j xs))"
proof (induction xs arbitrary: k)
  case Nil
  show ?case by (cases k) auto
next
  case (Cons y ys)
  show ?case
  proof (cases k)
    case 0
    then show ?thesis by (intro exI [of _ 0]) simp
  next
    case (Suc k')
    show ?thesis
    proof (cases "f x \<le> f y")
      case True
      then show ?thesis using Suc by (intro exI [of _ k']) simp
    next
      case False
      from Cons.IH [of k'] obtain j where
        "mset (take k' (insort_key f x ys)) = mset (take j ys) \<or>
         mset (take k' (insort_key f x ys)) = add_mset x (mset (take j ys))" by blast
      then show ?thesis using False Suc by (intro exI [of _ "Suc j"]) auto
    qed
  qed
qed

lemma take_insort2_mset:
  fixes f :: "'a \<Rightarrow> int"
  assumes "f a \<le> f r"
  shows "\<exists>j. mset (take k (insort_key f a (insort_key f r xs))) = mset (take j xs) \<or>
       mset (take k (insort_key f a (insort_key f r xs))) = add_mset a (mset (take j xs)) \<or>
       mset (take k (insort_key f a (insort_key f r xs))) =
         add_mset a (add_mset r (mset (take j xs)))"
proof (induction xs arbitrary: k)
  case Nil
  show ?case
  proof (cases k)
    case 0
    then show ?thesis by simp
  next
    case (Suc k')
    then show ?thesis using assms by (cases k') auto
  qed
next
  case (Cons y ys)
  show ?case
  proof (cases k)
    case 0
    then show ?thesis by (intro exI [of _ 0]) simp
  next
    case (Suc k')
    show ?thesis
    proof (cases "f r \<le> f y")
      case True
      show ?thesis
      proof (cases k')
        case 0
        with Suc True assms show ?thesis by (intro exI [of _ 0]) simp
      next
        case (Suc k'')
        with \<open>k = Suc k'\<close> True assms show ?thesis by (intro exI [of _ k'']) simp
      qed
    next
      case ry: False
      show ?thesis
      proof (cases "f a \<le> f y")
        case True
        show ?thesis
        proof (cases k')
          case 0
          with Suc True ry show ?thesis by (intro exI [of _ 0]) simp
        next
          case (Suc k'')
          from take_insort_mset [of k'' f r ys] obtain j where
            "mset (take k'' (insort_key f r ys)) = mset (take j ys) \<or>
             mset (take k'' (insort_key f r ys)) = add_mset r (mset (take j ys))" by blast
          with \<open>k = Suc k'\<close> Suc True ry show ?thesis by (intro exI [of _ "Suc j"]) auto
        qed
      next
        case False
        from Cons.IH [of k'] obtain j where
          "mset (take k' (insort_key f a (insort_key f r ys))) = mset (take j ys) \<or>
           mset (take k' (insort_key f a (insort_key f r ys))) = add_mset a (mset (take j ys)) \<or>
           mset (take k' (insort_key f a (insort_key f r ys))) =
             add_mset a (add_mset r (mset (take j ys)))" by blast
        with Suc False ry show ?thesis by (intro exI [of _ "Suc j"]) auto
      qed
    qed
  qed
qed

lemma envelopes_mset:
  assumes "mset ps = mset qs"
  shows "addedEnvelopes ps = addedEnvelopes qs" "removedEnvelopes ps = removedEnvelopes qs"
  using assms by (simp_all add: addedEnvelopes_def removedEnvelopes_def)

lemma envelopes_Cons:
  "addedEnvelopes (e # ps) =
     (if etype e > 0 then add_mset (e_lMin e, e_lMax e) (addedEnvelopes ps) else addedEnvelopes ps)"
  "removedEnvelopes (e # ps) =
     (if etype e < 0 then add_mset (e_lMin e, e_lMax e) (removedEnvelopes ps)
      else removedEnvelopes ps)"
  by (simp_all add: addedEnvelopes_def removedEnvelopes_def)

lemma envelopes_events:
  "addedEnvelopes (boundaryEvent d # ps) = addedEnvelopes ps"
  "removedEnvelopes (boundaryEvent d # ps) = removedEnvelopes ps"
  "addedEnvelopes (addEvent c # ps) = add_mset (lMin c, lMax c) (addedEnvelopes ps)"
  "removedEnvelopes (addEvent c # ps) = removedEnvelopes ps"
  "addedEnvelopes (removeEvent c # ps) = addedEnvelopes ps"
  "removedEnvelopes (removeEvent c # ps) = add_mset (lMin c, lMax c) (removedEnvelopes ps)"
  by (simp_all add: envelopes_Cons boundaryEvent_def addEvent_def removeEvent_def)

lemma subset_add_mset_right: "A \<subseteq># B \<Longrightarrow> A \<subseteq># add_mset x B"
  by (metis add_mset_add_single mset_subset_eq_add_left subset_mset.order_trans)

lemma balanced_cams:
  assumes "\<forall>c\<in>set vcs. dMin c \<le> dMax c"
  shows "removedEnvelopes (take k (sort_key dist (concat (map (\<lambda>c. [addEvent c, removeEvent c]) vcs))))
     \<subseteq># addedEnvelopes (take k (sort_key dist (concat (map (\<lambda>c. [addEvent c, removeEvent c]) vcs))))"
  using assms
proof (induction vcs arbitrary: k)
  case Nil
  show ?case by (simp add: addedEnvelopes_def removedEnvelopes_def)
next
  case (Cons c vcs)
  define S where "S = sort_key dist (concat (map (\<lambda>c. [addEvent c, removeEvent c]) vcs))"
  have ih: "removedEnvelopes (take j S) \<subseteq># addedEnvelopes (take j S)" for j
    unfolding S_def using Cons.IH Cons.prems by simp
  have le: "dist (addEvent c) \<le> dist (removeEvent c)"
    using Cons.prems by (simp add: dist_events)
  have S': "sort_key dist (concat (map (\<lambda>c. [addEvent c, removeEvent c]) (c # vcs))) =
      insort_key dist (addEvent c) (insort_key dist (removeEvent c) S)"
    by (simp add: S_def)
  from take_insort2_mset [of dist "addEvent c" "removeEvent c" k S, OF le] obtain j where
    "mset (take k (insort_key dist (addEvent c) (insort_key dist (removeEvent c) S))) =
       mset (take j S) \<or>
     mset (take k (insort_key dist (addEvent c) (insort_key dist (removeEvent c) S))) =
       mset (addEvent c # take j S) \<or>
     mset (take k (insort_key dist (addEvent c) (insort_key dist (removeEvent c) S))) =
       mset (addEvent c # removeEvent c # take j S)"
    by auto
  then show ?case unfolding S'
  proof (elim disjE)
    assume "mset (take k (insort_key dist (addEvent c) (insort_key dist (removeEvent c) S))) =
       mset (take j S)"
    from envelopes_mset [OF this] ih [of j] show
      "removedEnvelopes (take k (insort_key dist (addEvent c) (insort_key dist (removeEvent c) S)))
       \<subseteq># addedEnvelopes (take k (insort_key dist (addEvent c) (insort_key dist (removeEvent c) S)))"
      by simp
  next
    assume "mset (take k (insort_key dist (addEvent c) (insort_key dist (removeEvent c) S))) =
       mset (addEvent c # take j S)"
    from envelopes_mset [OF this] ih [of j] show
      "removedEnvelopes (take k (insort_key dist (addEvent c) (insort_key dist (removeEvent c) S)))
       \<subseteq># addedEnvelopes (take k (insort_key dist (addEvent c) (insort_key dist (removeEvent c) S)))"
      by (simp add: envelopes_events subset_add_mset_right)
  next
    assume "mset (take k (insort_key dist (addEvent c) (insort_key dist (removeEvent c) S))) =
       mset (addEvent c # removeEvent c # take j S)"
    from envelopes_mset [OF this] ih [of j] show
      "removedEnvelopes (take k (insort_key dist (addEvent c) (insort_key dist (removeEvent c) S)))
       \<subseteq># addedEnvelopes (take k (insort_key dist (addEvent c) (insort_key dist (removeEvent c) S)))"
      by (simp add: envelopes_events)
  qed
qed

lemma balanced_events:
  assumes "\<forall>c\<in>set vcs. dMin c \<le> dMax c"
  shows "removedEnvelopes (take k (sort_key dist (buildEvents d0 d1 vcs)))
     \<subseteq># addedEnvelopes (take k (sort_key dist (buildEvents d0 d1 vcs)))"
proof -
  define S where "S = sort_key dist (concat (map (\<lambda>c. [addEvent c, removeEvent c]) vcs))"
  define S1 where "S1 = insort_key dist (boundaryEvent d1) S"
  have S2: "sort_key dist (buildEvents d0 d1 vcs) = insort_key dist (boundaryEvent d0) S1"
    by (simp add: buildEvents_eq S_def S1_def)
  from take_insort_mset [of k dist "boundaryEvent d0" S1] obtain j where
    j: "mset (take k (insort_key dist (boundaryEvent d0) S1)) = mset (take j S1) \<or>
        mset (take k (insort_key dist (boundaryEvent d0) S1)) = mset (boundaryEvent d0 # take j S1)"
    by auto
  from take_insort_mset [of j dist "boundaryEvent d1" S] obtain i where
    i: "mset (take j S1) = mset (take i S) \<or> mset (take j S1) = mset (boundaryEvent d1 # take i S)"
    unfolding S1_def by auto
  have a: "addedEnvelopes (take j S1) = addedEnvelopes (take i S) \<and>
           removedEnvelopes (take j S1) = removedEnvelopes (take i S)"
    using i envelopes_mset [of "take j S1" "take i S"]
      envelopes_mset [of "take j S1" "boundaryEvent d1 # take i S"]
    by (auto simp: envelopes_events)
  have b: "addedEnvelopes (take k (insort_key dist (boundaryEvent d0) S1)) = addedEnvelopes (take j S1) \<and>
           removedEnvelopes (take k (insort_key dist (boundaryEvent d0) S1)) = removedEnvelopes (take j S1)"
    using j envelopes_mset [of "take k (insort_key dist (boundaryEvent d0) S1)" "take j S1"]
      envelopes_mset [of "take k (insort_key dist (boundaryEvent d0) S1)" "boundaryEvent d0 # take j S1"]
    by (auto simp: envelopes_events)
  from balanced_cams [OF assms, of i] show ?thesis
    unfolding S2 using a b by (simp add: S_def)
qed

section \<open>Counts and open envelopes\<close>

lemma cntFun_envelopes:
  "cntFun li n ps X =
     int (size {#p \<in># addedEnvelopes ps. touchesRange li n (fst p) (snd p) X#}) -
     int (size {#p \<in># removedEnvelopes ps. touchesRange li n (fst p) (snd p) X#})"
proof (induction ps)
  case Nil
  show ?case by (simp add: cntFun_Nil addedEnvelopes_def removedEnvelopes_def)
next
  case (Cons e ps)
  show ?case
    unfolding cntFun_Cons Cons.IH envelopes_Cons
    by (simp add: evDelta_def touches_def)
qed

lemma cntFun_open:
  assumes "removedEnvelopes ps \<subseteq># addedEnvelopes ps"
  shows "cntFun li n ps X =
     int (size {#p \<in># openEnvelopes ps. touchesRange li n (fst p) (snd p) X#})"
proof -
  define T where "T = (\<lambda>p. touchesRange li n (fst p) (snd p) X)"
  have sub: "filter_mset T (removedEnvelopes ps) \<subseteq># filter_mset T (addedEnvelopes ps)"
    by (rule multiset_filter_mono [OF assms])
  have "size (filter_mset T (openEnvelopes ps)) =
      size (filter_mset T (addedEnvelopes ps)) - size (filter_mset T (removedEnvelopes ps))"
    unfolding openEnvelopes_def filter_diff_mset by (rule size_Diff_submset [OF sub])
  moreover have "size (filter_mset T (removedEnvelopes ps)) \<le> size (filter_mset T (addedEnvelopes ps))"
    by (rule size_mset_mono [OF sub])
  ultimately have "int (size (filter_mset T (openEnvelopes ps))) =
      int (size (filter_mset T (addedEnvelopes ps))) - int (size (filter_mset T (removedEnvelopes ps)))"
    by simp
  then show ?thesis unfolding cntFun_envelopes T_def by simp
qed

lemma open_positive:
  "0 < int (size {#p \<in># M. T p#}) \<longleftrightarrow> (\<exists>p\<in>#M. T p)"
proof -
  have "0 < int (size {#p \<in># M. T p#}) \<longleftrightarrow> 0 < size {#p \<in># M. T p#}" by (rule of_nat_0_less_iff)
  also have "\<dots> \<longleftrightarrow> {#p \<in># M. T p#} \<noteq> {#}" by (rule nonempty_has_size [symmetric])
  also have "\<dots> \<longleftrightarrow> set_mset {#p \<in># M. T p#} \<noteq> {}" by (simp only: set_mset_eq_empty_iff)
  also have "\<dots> \<longleftrightarrow> (\<exists>p\<in>#M. T p)" by auto
  finally show ?thesis .
qed

lemma open_light_values:
  assumes "p \<in># openEnvelopes (take k (sort_key dist (buildEvents d0 d1 vcs)))"
  shows "fst p \<in> set (uniqueLightValues l0 l1 vcs) \<and> snd p \<in> set (uniqueLightValues l0 l1 vcs)"
proof -
  from assms have "p \<in># addedEnvelopes (take k (sort_key dist (buildEvents d0 d1 vcs)))"
    unfolding openEnvelopes_def by (rule in_diffD)
  then obtain e where e: "e \<in> set (take k (sort_key dist (buildEvents d0 d1 vcs)))"
      "etype e > 0" "p = (e_lMin e, e_lMax e)"
    by (auto simp: addedEnvelopes_def)
  from e(1) have "e \<in> set (sort_key dist (buildEvents d0 d1 vcs))" by (rule in_set_takeD)
  from events_light_indexed [OF this, of l0 l1] e(2,3) show ?thesis by simp
qed

section \<open>The nodes of the tree\<close>

lemma treeNode_props:
  "treeNode n idx l r \<Longrightarrow> 0 < idx \<and> nodeBound n idx l r \<and> 0 \<le> l \<and> l \<le> r \<and> r \<le> n - 1"
proof (induction rule: treeNode.induct)
  case root
  then show ?case using nodeBound_root [of n] by simp
next
  case (left idx l r)
  then show ?case using nodeBound_left [of n idx l r] by auto
next
  case (right idx l r)
  then show ?case using nodeBound_right [of n idx l r] by auto
qed

lemma treeNode_wfT:
  "treeNode n idx l r \<Longrightarrow> wfT t 1 0 (n - 1) \<Longrightarrow> wfT t idx l r"
proof (induction rule: treeNode.induct)
  case root
  then show ?case by simp
next
  case (left idx l r)
  with wfT_children [of t idx l r] show ?case by simp
next
  case (right idx l r)
  with wfT_children [of t idx l r] show ?case by simp
qed

section \<open>The invariant of the segment tree during the sweep\<close>

lemma sweepState_inv:
  assumes "l0 \<noteq> l1"
  shows "\<exists>t. sweepState d0 d1 l0 l1 vcs k = Some t \<and>
     treeInv (uniqueLightValues l0 l1 vcs) t \<and>
     (\<forall>X. coverCount t X = cell (uniqueLightValues l0 l1 vcs) X
        (cntFun (lightIndex (uniqueLightValues l0 l1 vcs))
           (int (length (uniqueLightValues l0 l1 vcs)) - 1)
           (take k (sort_key dist (buildEvents d0 d1 vcs))) X))"
proof -
  define cs where "cs = uniqueLightValues l0 l1 vcs"
  define S where "S = sort_key dist (buildEvents d0 d1 vcs)"
  have cs2: "2 \<le> length cs" unfolding cs_def by (rule uniqueLightValues_length [OF assms])
  then have "cs \<noteq> []" by auto
  then have nt: "newSegmentTree cs = Some (initTree cs)" by (rule newSegmentTree_eq)
  have lk: "\<forall>e\<in>set (take k S). etype e \<noteq> 0 \<longrightarrow>
      (\<exists>a. lightIndex cs (e_lMin e) = Some a) \<and> (\<exists>b. lightIndex cs (e_lMax e) = Some b)"
    unfolding S_def cs_def using events_lookup in_set_takeD by metis
  from applyEvents_inv [OF lk treeInv_init [OF cs2], of "\<lambda>_. 0"]
  obtain t where "applyEvents (lightIndex cs) (take k S) (initTree cs) = Some t" "treeInv cs t"
    "\<forall>X. coverCount t X = cell cs X (cntFun (lightIndex cs) (int (length cs) - 1) (take k S) X)"
    by (auto simp: initTree_count)
  then show ?thesis
    unfolding sweepState_def Let_def cs_def [symmetric] S_def [symmetric] nt by simp
qed

text \<open>
  The state of the tree after each event of the sweep, in the exact arithmetic of the
  model: the rule, the counts and the lengths at every node.
\<close>

lemma sweep_tree_nodes:
  assumes "d0 \<le> d1" "l0 < l1" "\<forall>c\<in>set cameras. wfCam c"
  shows "\<exists>t. sweepState d0 d1 l0 l1 (validCams d0 d1 l0 l1 cameras) k = Some t \<and>
     (\<forall>idx l r. treeNode (tree_n t) idx l r \<longrightarrow>
        ruleAt t idx l r \<and>
        coverCount t idx =
          Some (int (size {#p \<in># sweepOpen d0 d1 (validCams d0 d1 l0 l1 cameras) k.
                         touchesRange (lightIndex (coords t)) (tree_n t) (fst p) (snd p) idx#})) \<and>
        coveredLen t idx =
          Some (\<Sum>i\<in>{l..r}.
                 if (\<exists>p\<in>#sweepOpen d0 d1 (validCams d0 d1 l0 l1 cameras) k.
                       \<exists>X. onPath idx l r i X \<and>
                           touchesRange (lightIndex (coords t)) (tree_n t) (fst p) (snd p) X)
                 then width (coords t) i else 0)) \<and>
     getCoveredLength t =
       Some (exactCovered (coords t) (sweepOpen d0 d1 (validCams d0 d1 l0 l1 cameras) k)
               0 (tree_n t - 1))"
proof -
  define vcs where "vcs = validCams d0 d1 l0 l1 cameras"
  define cs where "cs = uniqueLightValues l0 l1 vcs"
  define li where "li = lightIndex cs"
  define n where "n = int (length cs) - 1"
  define S where "S = sort_key dist (buildEvents d0 d1 vcs)"
  define M where "M = sweepOpen d0 d1 vcs k"
  have wfd: "\<forall>c\<in>set vcs. dMin c \<le> dMax c"
    unfolding vcs_def using validCams_clamped [of d0 d1 l0 l1 cameras] assms
    by (auto simp: clamped_def)
  have srt: "sorted cs" and dst: "distinct cs"
    by (simp_all add: cs_def sorted_uniqueLightValues distinct_uniqueLightValues)
  have cs2: "2 \<le> length cs"
    unfolding cs_def by (rule uniqueLightValues_length) (use assms(2) in simp)
  from sweepState_inv [of l0 l1 d0 d1 vcs k] assms(2)
  obtain t where t: "sweepState d0 d1 l0 l1 vcs k = Some t" and inv: "treeInv cs t"
    and cnt0: "\<forall>X. coverCount t X = cell cs X (cntFun li n (take k S) X)"
    unfolding cs_def li_def n_def S_def by auto
  from inv have co: "coords t = cs" and tn: "tree_n t = n" and wf: "wfT t 1 0 (n - 1)"
    by (simp_all add: treeInv_def n_def)
  have bal: "removedEnvelopes (take k S) \<subseteq># addedEnvelopes (take k S)"
    unfolding S_def by (rule balanced_events [OF wfd])
  have cf: "cntFun li n (take k S) X =
      int (size {#p \<in># M. touchesRange li n (fst p) (snd p) X#})" for X
    unfolding M_def sweepOpen_def S_def [symmetric] by (rule cntFun_open [OF bal])
  have cnt: "coverCount t X =
      cell cs X (int (size {#p \<in># M. touchesRange li n (fst p) (snd p) X#}))" for X
    using cnt0 unfolding cf by simp
  have node: "ruleAt t idx l r \<and>
      coverCount t idx = Some (int (size {#p \<in># M. touchesRange li n (fst p) (snd p) idx#})) \<and>
      coveredLen t idx =
        Some (\<Sum>i\<in>{l..r}. if (\<exists>p\<in>#M. \<exists>X. onPath idx l r i X \<and>
                                  touchesRange li n (fst p) (snd p) X)
                           then width cs i else 0)"
    if tnode: "treeNode n idx l r" for idx l r
  proof -
    from treeNode_props [OF tnode]
    have nb: "nodeBound n idx l r" and rng: "0 \<le> l" "l \<le> r" "r \<le> n - 1" by simp_all
    have wfn: "wfT t idx l r" by (rule treeNode_wfT [OF tnode wf])
    have some: "coverCount t X = Some (int (size {#p \<in># M. touchesRange li n (fst p) (snd p) X#}))"
      if "int X < 4 * n" for X
      using that cnt [of X] by (simp add: cell_def n_def)
    have pp: "posPath t idx l r i \<longleftrightarrow>
        (\<exists>p\<in>#M. \<exists>X. onPath idx l r i X \<and> touchesRange li n (fst p) (snd p) X)" for i
    proof -
      have "js_lt (Some 0) (coverCount t X) \<longleftrightarrow> (\<exists>p\<in>#M. touchesRange li n (fst p) (snd p) X)"
        if "onPath idx l r i X" for X
        using some [OF onPath_bound [OF nb that]] open_positive [of _ M]
        by (simp add: js_lt_def)
      then show ?thesis unfolding posPath_def by blast
    qed
    have "coveredLen t idx =
        Some (\<Sum>i\<in>{l..r}. if posPath t idx l r i then width (coords t) i else 0)"
      by (rule wfT_coveredLen [OF wfn rng(1,2)]) (use rng(3) co in \<open>simp add: n_def\<close>)
    then have "coveredLen t idx =
        Some (\<Sum>i\<in>{l..r}. if (\<exists>p\<in>#M. \<exists>X. onPath idx l r i X \<and>
                                  touchesRange li n (fst p) (snd p) X)
                           then width cs i else 0)"
      unfolding pp co .
    with wfT_node [OF wfn] some [OF nodeBound_lt [OF nb]] show ?thesis by simp
  qed
  have rootN: "treeNode n 1 0 (n - 1)" by (rule treeNode.root) (use cs2 in \<open>simp add: n_def\<close>)
  have "getCoveredLength t =
      Some (\<Sum>i\<in>{0..n - 1}. if (\<exists>p\<in>#M. \<exists>X. onPath 1 0 (n - 1) i X \<and>
                                  touchesRange li n (fst p) (snd p) X)
                           then width cs i else 0)"
    using node [OF rootN] by (simp add: getCoveredLength_def)
  also have "(\<Sum>i\<in>{0..n - 1}. if (\<exists>p\<in>#M. \<exists>X. onPath 1 0 (n - 1) i X \<and>
                                  touchesRange li n (fst p) (snd p) X)
                           then width cs i else 0) = exactCovered cs M 0 (n - 1)"
    unfolding exactCovered_def
  proof (rule sum.cong [OF refl])
    fix i assume i: "i \<in> {0..n - 1}"
    have "(\<exists>X. onPath 1 0 (n - 1) i X \<and> touchesRange li n (fst p) (snd p) X) \<longleftrightarrow>
        (fst p \<le> cs ! nat i \<and> cs ! nat (i + 1) \<le> snd p)" if "p \<in># M" for p
    proof -
      from that open_light_values [of p k d0 d1 vcs l0 l1]
      have mem: "fst p \<in> set cs" "snd p \<in> set cs"
        by (simp_all add: M_def sweepOpen_def cs_def)
      have "n - 1 = int (length cs) - 2" by (simp add: n_def)
      with touchesRange_path [OF srt dst mem, of i] i show ?thesis
        by (simp add: li_def n_def)
    qed
    then show "(if (\<exists>p\<in>#M. \<exists>X. onPath 1 0 (n - 1) i X \<and> touchesRange li n (fst p) (snd p) X)
                then width cs i else 0) =
               (if (\<exists>p\<in>#M. fst p \<le> cs ! nat i \<and> cs ! nat (i + 1) \<le> snd p)
                then width cs i else 0)"
      by (metis (no_types, lifting))
  qed
  finally have rootc: "getCoveredLength t = Some (exactCovered cs M 0 (n - 1))" .
  have "sweepState d0 d1 l0 l1 vcs k = Some t \<and>
     (\<forall>idx l r. treeNode (tree_n t) idx l r \<longrightarrow>
        ruleAt t idx l r \<and>
        coverCount t idx =
          Some (int (size {#p \<in># M.
                         touchesRange (lightIndex (coords t)) (tree_n t) (fst p) (snd p) idx#})) \<and>
        coveredLen t idx =
          Some (\<Sum>i\<in>{l..r}.
                 if (\<exists>p\<in>#M. \<exists>X. onPath idx l r i X \<and>
                           touchesRange (lightIndex (coords t)) (tree_n t) (fst p) (snd p) X)
                 then width (coords t) i else 0)) \<and>
     getCoveredLength t = Some (exactCovered (coords t) M 0 (tree_n t - 1))"
    unfolding co tn li_def [symmetric] using t node rootc by blast
  then show ?thesis
    unfolding vcs_def [symmetric] M_def [symmetric] by (rule exI)
qed

text \<open>At most as many envelopes are open as there are rectangles.\<close>

lemma open_envelopes_bound:
  "size (sweepOpen d0 d1 (validCams d0 d1 l0 l1 cameras) k) \<le> length cameras"
proof -
  define vcs where "vcs = validCams d0 d1 l0 l1 cameras"
  define S where "S = sort_key dist (buildEvents d0 d1 vcs)"
  have "size (sweepOpen d0 d1 vcs k) \<le> size (addedEnvelopes (take k S))"
    unfolding sweepOpen_def openEnvelopes_def S_def by (rule size_mset_mono) simp
  also have "\<dots> = length (filter (\<lambda>e. etype e > 0) (take k S))"
    by (simp only: addedEnvelopes_def size_mset length_map)
  also have "\<dots> \<le> length (filter (\<lambda>e. etype e > 0) (take k S)) +
      length (filter (\<lambda>e. etype e > 0) (drop k S))" by simp
  also have "\<dots> = length (filter (\<lambda>e. etype e > 0) S)"
    by (simp only: length_append [symmetric] filter_append [symmetric] append_take_drop_id)
  also have "\<dots> = size (filter_mset (\<lambda>e. etype e > 0) (mset S))"
    by (simp only: mset_filter [symmetric] size_mset)
  also have "mset S = mset (buildEvents d0 d1 vcs)" by (simp add: S_def)
  also have "size (filter_mset (\<lambda>e. etype e > 0) (mset (buildEvents d0 d1 vcs))) =
      length (filter (\<lambda>e. etype e > 0) (buildEvents d0 d1 vcs))"
    by (simp only: mset_filter [symmetric] size_mset)
  also have "\<dots> = length vcs"
    unfolding buildEvents_eq
    by (induction vcs) (simp_all add: boundaryEvent_def addEvent_def removeEvent_def)
  also have "\<dots> \<le> length cameras" by (simp add: vcs_def validCams_eq)
  finally show ?thesis unfolding vcs_def .
qed

text \<open>
  With the light bounds of the target in the exact range, every number that the tree holds
  after an event, and every operand and result of an addition or subtraction that produced
  it, is an integer of magnitude at most \<open>2 ^ 53\<close>: the light coordinates lie in the exact
  range, a count lies between 0 and the number of the rectangles, the length of a node's
  span and its cached length lie between 0 and \<open>2 ^ 53\<close>, and so does the required length
  \<^verbatim>\<open>lightMax - lightMin\<close>. In this range the exact arithmetic of the model is the arithmetic
  of the source.
\<close>

lemma lengths_in_exact_range:
  assumes "d0 \<le> d1" "l0 < l1" "\<forall>c\<in>set cameras. wfCam c"
    and "inExactRange l0" "inExactRange l1"
  shows "\<exists>t. sweepState d0 d1 l0 l1 (validCams d0 d1 l0 l1 cameras) k = Some t \<and>
     (\<forall>v\<in>set (coords t). inExactRange v) \<and>
     (\<forall>idx l r. treeNode (tree_n t) idx l r \<longrightarrow>
        (\<exists>c. coverCount t idx = Some c \<and> 0 \<le> c \<and> c \<le> int (length cameras)) \<and>
        (\<exists>v. js_sub (js_nth (coords t) (r + 1)) (js_nth (coords t) l) = Some v \<and>
             0 \<le> v \<and> v \<le> 2 ^ 53) \<and>
        (\<exists>v. coveredLen t idx = Some v \<and> 0 \<le> v \<and> v \<le> 2 ^ 53)) \<and>
     0 \<le> l1 - l0 \<and> l1 - l0 \<le> 2 ^ 53"
proof -
  define vcs where "vcs = validCams d0 d1 l0 l1 cameras"
  define cs where "cs = uniqueLightValues l0 l1 vcs"
  define n where "n = int (length cs) - 1"
  define M where "M = sweepOpen d0 d1 vcs k"
  have cl: "\<forall>v\<in>set vcs. clamped d0 d1 l0 l1 v"
    unfolding vcs_def using validCams_clamped [of d0 d1 l0 l1 cameras] assms(1,2,3) by auto
  have rng: "l0 \<le> v \<and> v \<le> l1" if "v \<in> set cs" for v
    using that cl assms(2) unfolding cs_def set_uniqueLightValues clamped_def by auto
  have srt: "sorted cs" by (simp add: cs_def sorted_uniqueLightValues)
  from sweepState_inv [of l0 l1 d0 d1 vcs k] assms(2)
  obtain t where t: "sweepState d0 d1 l0 l1 vcs k = Some t" and inv: "treeInv cs t"
    unfolding cs_def by auto
  from inv have co: "coords t = cs" and tn: "tree_n t = n"
    by (simp_all add: treeInv_def n_def)
  from sweep_tree_nodes [OF assms(1,2,3), of k]
  obtain t' where t': "sweepState d0 d1 l0 l1 (validCams d0 d1 l0 l1 cameras) k = Some t'"
    and nd: "\<forall>idx l r. treeNode (tree_n t') idx l r \<longrightarrow>
        ruleAt t' idx l r \<and>
        coverCount t' idx =
          Some (int (size {#p \<in># sweepOpen d0 d1 (validCams d0 d1 l0 l1 cameras) k.
                         touchesRange (lightIndex (coords t')) (tree_n t') (fst p) (snd p) idx#})) \<and>
        coveredLen t' idx =
          Some (\<Sum>i\<in>{l..r}.
                 if (\<exists>p\<in>#sweepOpen d0 d1 (validCams d0 d1 l0 l1 cameras) k.
                       \<exists>X. onPath idx l r i X \<and>
                           touchesRange (lightIndex (coords t')) (tree_n t') (fst p) (snd p) X)
                 then width (coords t') i else 0)"
    by blast
  from t t' have tt: "t' = t" by (simp add: vcs_def)
  have nodes: "coverCount t idx =
        Some (int (size {#p \<in># M. touchesRange (lightIndex cs) n (fst p) (snd p) idx#})) \<and>
      coveredLen t idx =
        Some (\<Sum>i\<in>{l..r}. if (\<exists>p\<in>#M. \<exists>X. onPath idx l r i X \<and>
                 touchesRange (lightIndex cs) n (fst p) (snd p) X) then width cs i else 0)"
    if "treeNode n idx l r" for idx l r
    using nd that unfolding tt co tn M_def vcs_def by blast
  have big: "l1 - l0 \<le> 2 ^ 53" using assms(4,5) by (simp add: inExactRange_def)
  have ex: "\<forall>v\<in>set cs. inExactRange v"
    using rng assms(4,5) unfolding inExactRange_def by force
  have node: "(\<exists>c. coverCount t idx = Some c \<and> 0 \<le> c \<and> c \<le> int (length cameras)) \<and>
      (\<exists>v. js_sub (js_nth cs (r + 1)) (js_nth cs l) = Some v \<and> 0 \<le> v \<and> v \<le> 2 ^ 53) \<and>
      (\<exists>v. coveredLen t idx = Some v \<and> 0 \<le> v \<and> v \<le> 2 ^ 53)"
    if tnode: "treeNode n idx l r" for idx l r
  proof -
    from treeNode_props [OF tnode] have lr: "0 \<le> l" "l \<le> r" "r \<le> n - 1" by simp_all
    have il: "nat l < length cs" and ir: "nat (r + 1) < length cs"
      using lr by (simp_all add: n_def)
    have le: "cs ! nat l \<le> cs ! nat (r + 1)"
      by (rule sorted_nth_mono [OF srt _ ir]) (use lr in simp)
    from rng [OF nth_mem [OF il]] rng [OF nth_mem [OF ir]]
    have span: "cs ! nat (r + 1) - cs ! nat l \<le> l1 - l0" by simp
    have w: "0 \<le> width cs i" if "i \<in> {l..r}" for i
    proof -
      from that lr have "0 \<le> i" "i + 1 < int (length cs)" by (simp_all add: n_def)
      then have "nat (i + 1) < length cs" by linarith
      from sorted_nth_mono [OF srt _ this, of "nat i"] that lr show ?thesis
        by (simp add: width_def)
    qed
    define P where "P = (\<lambda>i. \<exists>p\<in>#M. \<exists>X. onPath idx l r i X \<and>
                 touchesRange (lightIndex cs) n (fst p) (snd p) X)"
    have lo: "0 \<le> (\<Sum>i\<in>{l..r}. if P i then width cs i else 0)"
      by (rule sum_nonneg) (use w in simp)
    have "(\<Sum>i\<in>{l..r}. if P i then width cs i else 0) \<le> (\<Sum>i\<in>{l..r}. width cs i)"
      by (rule sum_mono) (use w in simp)
    also have "\<dots> = cs ! nat (r + 1) - cs ! nat l" by (rule width_telescope [OF lr(1,2)])
    finally have hi: "(\<Sum>i\<in>{l..r}. if P i then width cs i else 0) \<le> 2 ^ 53"
      using span big by simp
    have sz: "size {#p \<in># M. touchesRange (lightIndex cs) n (fst p) (snd p) idx#} \<le> length cameras"
      using size_filter_mset_lesseq [of _ M] open_envelopes_bound [of d0 d1 l0 l1 cameras k]
      unfolding M_def vcs_def by (rule order_trans)
    have sb: "js_sub (js_nth cs (r + 1)) (js_nth cs l) = Some (cs ! nat (r + 1) - cs ! nat l)"
      using lr il ir by (simp add: js_sub_def js_nth_def n_def)
    from nodes [OF tnode]
    have c1: "coverCount t idx =
        Some (int (size {#p \<in># M. touchesRange (lightIndex cs) n (fst p) (snd p) idx#}))"
      by (rule conjunct1)
    from nodes [OF tnode]
    have c2: "coveredLen t idx = Some (\<Sum>i\<in>{l..r}. if P i then width cs i else 0)"
      unfolding P_def by (rule conjunct2)
    have g1: "\<exists>c. coverCount t idx = Some c \<and> 0 \<le> c \<and> c \<le> int (length cameras)"
      unfolding c1 using sz by simp
    have g2: "\<exists>v. js_sub (js_nth cs (r + 1)) (js_nth cs l) = Some v \<and> 0 \<le> v \<and> v \<le> 2 ^ 53"
      unfolding sb using le span big by simp
    have g3: "\<exists>v. coveredLen t idx = Some v \<and> 0 \<le> v \<and> v \<le> 2 ^ 53"
      unfolding c2 using lo hi by simp
    from g1 g2 g3 show ?thesis by (intro conjI)
  qed
  have f1: "\<forall>v\<in>set (coords t). inExactRange v" unfolding co by (rule ex)
  have f2: "\<forall>idx l r. treeNode (tree_n t) idx l r \<longrightarrow>
        (\<exists>c. coverCount t idx = Some c \<and> 0 \<le> c \<and> c \<le> int (length cameras)) \<and>
        (\<exists>v. js_sub (js_nth (coords t) (r + 1)) (js_nth (coords t) l) = Some v \<and>
             0 \<le> v \<and> v \<le> 2 ^ 53) \<and>
        (\<exists>v. coveredLen t idx = Some v \<and> 0 \<le> v \<and> v \<le> 2 ^ 53)"
    unfolding co tn using node by blast
  have f3: "0 \<le> l1 - l0" using assms(2) by simp
  from t f1 f2 f3 big
  have fin: "sweepState d0 d1 l0 l1 vcs k = Some t \<and>
     (\<forall>v\<in>set (coords t). inExactRange v) \<and>
     (\<forall>idx l r. treeNode (tree_n t) idx l r \<longrightarrow>
        (\<exists>c. coverCount t idx = Some c \<and> 0 \<le> c \<and> c \<le> int (length cameras)) \<and>
        (\<exists>v. js_sub (js_nth (coords t) (r + 1)) (js_nth (coords t) l) = Some v \<and>
             0 \<le> v \<and> v \<le> 2 ^ 53) \<and>
        (\<exists>v. coveredLen t idx = Some v \<and> 0 \<le> v \<and> v \<le> 2 ^ 53)) \<and>
     0 \<le> l1 - l0 \<and> l1 - l0 \<le> 2 ^ 53"
    by (intro conjI)
  show ?thesis unfolding vcs_def [symmetric] by (rule exI [of _ t]) (rule fin)
qed

text \<open>
  C8, as the code has it. For well-formed rectangles and a well-formed target with
  \<open>lightMin < lightMax\<close> whose light bounds have a magnitude of at most \<open>2 ^ 52\<close>, after each
  event of the sweep (that is, after each update), the tree satisfies at every node: the
  recompute rule; \<^verbatim>\<open>coverCount\<close> is the number of open envelopes (add processed, remove not
  yet) whose range decomposition uses the node; and \<^verbatim>\<open>coveredLen\<close> is the light length covered
  within the node's span by the open envelopes counted at the node or below it, on the path
  to the interval (envelopes counted at a proper ancestor are not reflected). At the root
  this is the exact light length covered by at least one open envelope, which is what
  \<^verbatim>\<open>getCoveredLength\<close> returns. The bound on the light bounds keeps the lengths that the source
  computes exact (lemma \<open>lengths_in_exact_range\<close>); beyond it the source rounds them, which
  the model does not follow.
\<close>

theorem segment_tree_invariant:
  assumes "d0 \<le> d1" "l0 < l1" "\<forall>c\<in>set cameras. wfCam c"
    and "inExactRange l0" "inExactRange l1"
  shows "\<exists>t. sweepState d0 d1 l0 l1 (validCams d0 d1 l0 l1 cameras) k = Some t \<and>
     (\<forall>idx l r. treeNode (tree_n t) idx l r \<longrightarrow>
        ruleAt t idx l r \<and>
        coverCount t idx =
          Some (int (size {#p \<in># sweepOpen d0 d1 (validCams d0 d1 l0 l1 cameras) k.
                         touchesRange (lightIndex (coords t)) (tree_n t) (fst p) (snd p) idx#})) \<and>
        coveredLen t idx =
          Some (\<Sum>i\<in>{l..r}.
                 if (\<exists>p\<in>#sweepOpen d0 d1 (validCams d0 d1 l0 l1 cameras) k.
                       \<exists>X. onPath idx l r i X \<and>
                           touchesRange (lightIndex (coords t)) (tree_n t) (fst p) (snd p) X)
                 then width (coords t) i else 0)) \<and>
     getCoveredLength t =
       Some (exactCovered (coords t) (sweepOpen d0 d1 (validCams d0 d1 l0 l1 cameras) k)
               0 (tree_n t - 1))"
  by (rule sweep_tree_nodes [OF assms(1,2,3)])

theorem segment_tree_invariant_witness:
  "\<exists>t. sweepState 0 20 0 10
         (validCams 0 20 0 10
           [\<lparr>dMin = 0, dMax = 10, lMin = 0, lMax = 5\<rparr>,
            \<lparr>dMin = 0, dMax = 10, lMin = 5, lMax = 10\<rparr>,
            \<lparr>dMin = 10, dMax = 20, lMin = 0, lMax = 10\<rparr>]) 3 = Some t \<and>
       tree_n t = 2 \<and> treeNode 2 1 0 1 \<and> ruleAt t 1 0 1 \<and>
       getCoveredLength t = Some 10 \<and>
       exactCovered (coords t)
         (sweepOpen 0 20
           (validCams 0 20 0 10
             [\<lparr>dMin = 0, dMax = 10, lMin = 0, lMax = 5\<rparr>,
              \<lparr>dMin = 0, dMax = 10, lMin = 5, lMax = 10\<rparr>,
              \<lparr>dMin = 10, dMax = 20, lMin = 0, lMax = 10\<rparr>]) 3)
         0 (tree_n t - 1) = 10"
proof -
  define cams where "cams =
     [\<lparr>dMin = 0, dMax = 10, lMin = 0, lMax = 5\<rparr>,
      \<lparr>dMin = 0, dMax = 10, lMin = 5, lMax = 10\<rparr>,
      \<lparr>dMin = 10, dMax = 20, lMin = 0, lMax = (10::int)\<rparr>]"
  have wf: "\<forall>c\<in>set cams. wfCam c" by (simp add: cams_def wfCam_def)
  have ex: "inExactRange 0" "inExactRange 10" by (simp_all add: inExactRange_def)
  from segment_tree_invariant [of 0 20 0 10 cams 3, OF _ _ wf ex]
  obtain t where t: "sweepState 0 20 0 10 (validCams 0 20 0 10 cams) 3 = Some t"
    and nodes: "\<And>idx l r. treeNode (tree_n t) idx l r \<Longrightarrow> ruleAt t idx l r"
    and c: "getCoveredLength t =
       Some (exactCovered (coords t) (sweepOpen 0 20 (validCams 0 20 0 10 cams) 3) 0 (tree_n t - 1))"
    by auto
  have "map_option (\<lambda>t. (tree_n t, getCoveredLength t))
      (sweepState 0 20 0 10 (validCams 0 20 0 10 cams) 3) = Some (2, Some 10)"
    unfolding cams_def by code_simp
  with t have v: "tree_n t = 2" "getCoveredLength t = Some 10" by simp_all
  have "treeNode 2 1 0 (2 - 1)" by (rule treeNode.root) simp
  then have r: "treeNode 2 1 0 1" by simp
  with nodes [of 1 0 1] v(1) have "ruleAt t 1 0 1" by simp
  with t c v r show ?thesis unfolding cams_def by auto
qed

text \<open>
  C8 fails as stated. With the rectangles \<open>{0,10,0,10}\<close> and \<open>{0,10,0,5}\<close> and the target
  \<open>(0,10,0,10)\<close>, after the first add event the envelope \<open>[0,10]\<close> is open and counted at
  the root; node 2, whose span is the light interval \<open>[0,5]\<close>, keeps \<^verbatim>\<open>coveredLen\<close> 0 although
  the open envelope covers all 5 units of its span. With an inverted rectangle the count
  of the root is -1 while no envelope is open, and with \<open>lightMin = lightMax\<close> the tree has
  no node and \<^verbatim>\<open>getCoveredLength\<close> is \<^verbatim>\<open>undefined\<close>.
\<close>

theorem segment_tree_node_counterexample:
  "treeNode 2 2 0 0 \<and>
   map_option (\<lambda>t. (coords t, tree_n t, coveredLen t 2, coveredLen t 1))
     (sweepState 0 10 0 10
        (validCams 0 10 0 10
           [\<lparr>dMin = 0, dMax = 10, lMin = 0, lMax = 10\<rparr>,
            \<lparr>dMin = 0, dMax = 10, lMin = 0, lMax = 5\<rparr>]) 2) =
     Some ([0, 5, 10], 2, Some 0, Some 10) \<and>
   sweepOpen 0 10
     (validCams 0 10 0 10
        [\<lparr>dMin = 0, dMax = 10, lMin = 0, lMax = 10\<rparr>,
         \<lparr>dMin = 0, dMax = 10, lMin = 0, lMax = 5\<rparr>]) 2 = {#(0, 10)#} \<and>
   exactCovered [0, 5, 10] {#(0, 10)#} 0 0 = 5 \<and>
   map_option (\<lambda>t. coverCount t 1)
     (sweepState 0 10 0 10
        (validCams 0 10 0 10 [\<lparr>dMin = 10, dMax = 0, lMin = 0, lMax = 10\<rparr>]) 2) =
     Some (Some (- 1)) \<and>
   sweepOpen 0 10
     (validCams 0 10 0 10 [\<lparr>dMin = 10, dMax = 0, lMin = 0, lMax = 10\<rparr>]) 2 = {#} \<and>
   map_option getCoveredLength
     (sweepState 0 10 0 0
        (validCams 0 10 0 0 [\<lparr>dMin = 0, dMax = 10, lMin = 0, lMax = 0\<rparr>]) 2) =
     Some None"
proof -
  have "treeNode 2 (2 * 1) 0 ((0 + (2 - 1)) div 2)"
    by (rule treeNode.left [OF treeNode.root]) simp_all
  then have n: "treeNode 2 2 0 0" by simp
  have a: "map_option (\<lambda>t. (coords t, tree_n t, coveredLen t 2, coveredLen t 1))
     (sweepState 0 10 0 10
        (validCams 0 10 0 10
           [\<lparr>dMin = 0, dMax = 10, lMin = 0, lMax = 10\<rparr>,
            \<lparr>dMin = 0, dMax = 10, lMin = 0, lMax = 5\<rparr>]) 2) =
     Some ([0, 5, 10], 2, Some 0, Some 10)"
    by code_simp
  have b: "sweepOpen 0 10
     (validCams 0 10 0 10
        [\<lparr>dMin = 0, dMax = 10, lMin = 0, lMax = 10\<rparr>,
         \<lparr>dMin = 0, dMax = 10, lMin = 0, lMax = 5\<rparr>]) 2 = {#(0, 10)#}"
    by (simp add: sweepOpen_def openEnvelopes_def addedEnvelopes_def removedEnvelopes_def
        validCams_eq overlapsTarget_def clampCam_def buildEvents_eq boundaryEvent_def
        addEvent_def removeEvent_def)
  have c: "exactCovered [0, 5, 10] {#(0, 10)#} 0 0 = 5"
    by (simp add: exactCovered_def width_def)
  have d: "map_option (\<lambda>t. coverCount t 1)
     (sweepState 0 10 0 10
        (validCams 0 10 0 10 [\<lparr>dMin = 10, dMax = 0, lMin = 0, lMax = 10\<rparr>]) 2) =
     Some (Some (- 1))"
    by code_simp
  have e: "sweepOpen 0 10
     (validCams 0 10 0 10 [\<lparr>dMin = 10, dMax = 0, lMin = 0, lMax = 10\<rparr>]) 2 = {#}"
    by (simp add: sweepOpen_def openEnvelopes_def addedEnvelopes_def removedEnvelopes_def
        validCams_eq overlapsTarget_def clampCam_def buildEvents_eq boundaryEvent_def
        addEvent_def removeEvent_def)
  have f: "map_option getCoveredLength
     (sweepState 0 10 0 0
        (validCams 0 10 0 0 [\<lparr>dMin = 0, dMax = 10, lMin = 0, lMax = 0\<rparr>]) 2) =
     Some None"
    by code_simp
  from n a b c d e f show ?thesis by blast
qed

end
